theory Spec2Isabelle
  imports Main "HOL-Library.Char_ord" "HOL-Library.List_Lexorder"
begin

section \<open>Strings and characters as Python sees them\<close>

text \<open>
  A Python \<^verbatim>\<open>str\<close> is modelled as a \<^typ>\<open>string\<close>, one \<^typ>\<open>char\<close> per code point, so the
  model covers the code points below 256 (ASCII and Latin-1). The character classes below
  are those of CPython for these code points: \<^verbatim>\<open>str.isspace\<close> and the regular
  expression class \<^verbatim>\<open>\s\<close> agree on them, and \<^verbatim>\<open>\w\<close> is \<^verbatim>\<open>str.isalnum\<close> or the
  underscore.
\<close>

definition is_space :: "char \<Rightarrow> bool" where
  "is_space c =
     (let n = (of_char c :: nat)
      in (9 \<le> n \<and> n \<le> 13) \<or> (28 \<le> n \<and> n \<le> 32) \<or> n = 133 \<or> n = 160)"

definition is_ident_start :: "char \<Rightarrow> bool" where
  \<comment> \<open>the class \<^verbatim>\<open>[a-zA-Z_]\<close>\<close>
  "is_ident_start c =
     (let n = (of_char c :: nat)
      in (97 \<le> n \<and> n \<le> 122) \<or> (65 \<le> n \<and> n \<le> 90) \<or> n = 95)"

definition is_word :: "char \<Rightarrow> bool" where
  \<comment> \<open>the class \<^verbatim>\<open>\w\<close> of a \<^verbatim>\<open>str\<close> pattern\<close>
  "is_word c =
     (let n = (of_char c :: nat)
      in (48 \<le> n \<and> n \<le> 57) \<or> (65 \<le> n \<and> n \<le> 90) \<or> n = 95 \<or> (97 \<le> n \<and> n \<le> 122)
         \<or> n = 170 \<or> n = 178 \<or> n = 179 \<or> n = 181 \<or> n = 185 \<or> n = 186
         \<or> (188 \<le> n \<and> n \<le> 190) \<or> (192 \<le> n \<and> n \<le> 214) \<or> (216 \<le> n \<and> n \<le> 246)
         \<or> 248 \<le> n)"

definition strip :: "string \<Rightarrow> string" where
  \<comment> \<open>\<^verbatim>\<open>str.strip()\<close>\<close>
  "strip s = rev (dropWhile is_space (rev (dropWhile is_space s)))"

definition dquote :: char where
  "dquote = CHR 0x22"

section \<open>The grammar engine of validate_spec.py\<close>

text \<open>
  The two regular expressions are anchored and every repetition in them is followed by a
  character outside the repeated class, so a match, when there is one, is the greedy one
  and no backtracking can find another. The matchers below read the text left to right in
  the order of the pattern and return the groups.
\<close>

fun take_ident :: "string \<Rightarrow> (string \<times> string) option" where
  \<comment> \<open>\<^verbatim>\<open>([a-zA-Z_]\w*)\<close>: the identifier and the rest\<close>
  "take_ident [] = None"
| "take_ident (c # cs) =
     (if is_ident_start c then Some (c # takeWhile is_word cs, dropWhile is_word cs) else None)"

fun take_op :: "string \<Rightarrow> (string \<times> string) option" where
  \<comment> \<open>\<^verbatim>\<open>(==|!=)\<close>\<close>
  "take_op (c1 # c2 # r) =
     (if (c1 = CHR ''='' \<or> c1 = CHR ''!'') \<and> c2 = CHR ''='' then Some ([c1, c2], r) else None)"
| "take_op _ = None"

definition TRIG_ATOM_RE_match :: "string \<Rightarrow> (string \<times> string \<times> string \<times> string) option" where
  \<comment> \<open>\<^verbatim>\<open>^\s*([a-zA-Z_]\w*)\.([a-zA-Z_]\w*)\s*(==|!=)\s*"([^"]+)"\s*$\<close>\<close>
  "TRIG_ATOM_RE_match s =
     (case take_ident (dropWhile is_space s) of
        None \<Rightarrow> None
      | Some (dev, r1) \<Rightarrow>
          (case r1 of
             [] \<Rightarrow> None
           | c # r2 \<Rightarrow>
               if c \<noteq> CHR ''.'' then None
               else
                 (case take_ident r2 of
                    None \<Rightarrow> None
                  | Some (attr, r3) \<Rightarrow>
                      (case take_op (dropWhile is_space r3) of
                         None \<Rightarrow> None
                       | Some (op, r4) \<Rightarrow>
                           (case dropWhile is_space r4 of
                              [] \<Rightarrow> None
                            | q # r5 \<Rightarrow>
                                if q \<noteq> dquote then None
                                else
                                  (let val = takeWhile (\<lambda>x. x \<noteq> dquote) r5;
                                       r6 = dropWhile (\<lambda>x. x \<noteq> dquote) r5
                                   in if val = [] then None
                                      else
                                        (case r6 of
                                           [] \<Rightarrow> None
                                         | q2 # r7 \<Rightarrow>
                                             if list_all is_space r7
                                             then Some (dev, attr, op, val)
                                             else None)))))))"

definition ACTION_RE_match :: "string \<Rightarrow> (string \<times> string) option" where
  \<comment> \<open>\<^verbatim>\<open>^\s*([a-zA-Z_]\w*)\.([a-zA-Z_]\w*)\(\)\s*$\<close>\<close>
  "ACTION_RE_match s =
     (case take_ident (dropWhile is_space s) of
        None \<Rightarrow> None
      | Some (dev, r1) \<Rightarrow>
          (case r1 of
             [] \<Rightarrow> None
           | c # r2 \<Rightarrow>
               if c \<noteq> CHR ''.'' then None
               else
                 (case take_ident r2 of
                    None \<Rightarrow> None
                  | Some (cmd, r3) \<Rightarrow>
                      (case r3 of
                         p1 # p2 # r4 \<Rightarrow>
                           if p1 = CHR ''('' \<and> p2 = CHR '')'' \<and> list_all is_space r4
                           then Some (dev, cmd)
                           else None
                       | _ \<Rightarrow> None))))"

text \<open>
  \<^verbatim>\<open>split_bool\<close>: the loop over the index \<^verbatim>\<open>i\<close> is a recursion over the text from
  \<^verbatim>\<open>i\<close> on, with the buffer and the tokens so far. The parameter \<^verbatim>\<open>bool_ops\<close> is not
  read by the source: the two connectives are written out in the test.
\<close>

fun split_loop :: "string \<Rightarrow> string \<Rightarrow> string list \<Rightarrow> string list \<times> string" where
  "split_loop (c1 # c2 # r) buf tokens =
     (if (c1 = CHR ''&'' \<and> c2 = CHR ''&'') \<or> (c1 = CHR ''|'' \<and> c2 = CHR ''|'')
      then split_loop r [] (tokens @ [strip buf, [c1, c2]])
      else split_loop (c2 # r) (buf @ [c1]) tokens)"
| "split_loop [c] buf tokens = (tokens, buf @ [c])"
| "split_loop [] buf tokens = (tokens, buf)"

definition split_bool :: "string \<Rightarrow> string list \<Rightarrow> string list" where
  "split_bool expr bool_ops =
     (case split_loop expr [] [] of
        (tokens, buf) \<Rightarrow> if strip buf \<noteq> [] then tokens @ [strip buf] else tokens)"

section \<open>Python's text of values\<close>

fun str_nat :: "nat \<Rightarrow> string" where
  \<comment> \<open>\<^verbatim>\<open>str(i)\<close> of a non-negative integer, as an f-string prints it\<close>
  "str_nat n =
     (if n < 10 then [char_of (48 + n)] else str_nat (n div 10) @ [char_of (48 + n mod 10)])"

declare str_nat.simps [simp del]

definition str_opt :: "string option \<Rightarrow> string" where
  \<comment> \<open>the text of \<^verbatim>\<open>tr.get(k)\<close> in an f-string: the string, or \<^verbatim>\<open>None\<close>\<close>
  "str_opt v = (case v of None \<Rightarrow> ''None'' | Some s \<Rightarrow> s)"

definition hex_digit :: "nat \<Rightarrow> char" where
  "hex_digit n = (if n < 10 then char_of (48 + n) else char_of (87 + n))"

definition is_printable :: "char \<Rightarrow> bool" where
  \<comment> \<open>\<^verbatim>\<open>str.isprintable\<close> on the code points below 256\<close>
  "is_printable c =
     (let n = (of_char c :: nat) in (32 \<le> n \<and> n < 127) \<or> (161 \<le> n \<and> n \<noteq> 173))"

definition repr_char :: "char \<Rightarrow> char \<Rightarrow> string" where
  "repr_char quote c =
     (if c = quote \<or> c = CHR 0x5C then [CHR 0x5C, c]
      else if c = CHR 0x09 then [CHR 0x5C, CHR ''t'']
      else if c = CHR 0x0A then [CHR 0x5C, CHR ''n'']
      else if c = CHR 0x0D then [CHR 0x5C, CHR ''r'']
      else if \<not> is_printable c
        then [CHR 0x5C, CHR ''x'', hex_digit (of_char c div 16), hex_digit (of_char c mod 16)]
      else [c])"

definition repr_str :: "string \<Rightarrow> string" where
  \<comment> \<open>\<^verbatim>\<open>repr\<close> of a \<^verbatim>\<open>str\<close>: single quotes, unless the text has one and no double quote\<close>
  "repr_str s =
     (let quote = (if CHR 0x27 \<in> set s \<and> dquote \<notin> set s then dquote else CHR 0x27)
      in quote # concat (map (repr_char quote) s) @ [quote])"

fun join :: "string \<Rightarrow> string list \<Rightarrow> string" where
  "join sep [] = []"
| "join sep [x] = x"
| "join sep (x # y # ys) = x @ sep @ join sep (y # ys)"

definition repr_list :: "string list \<Rightarrow> string" where
  \<comment> \<open>\<^verbatim>\<open>repr\<close> of a list of \<^verbatim>\<open>str\<close>, as an f-string prints \<^verbatim>\<open>{sorted(...)}\<close>\<close>
  "repr_list xs = ''['' @ join '', '' (map repr_str xs) @ '']''"

definition sorted_set :: "string list \<Rightarrow> string list" where
  \<comment> \<open>\<^verbatim>\<open>sorted(set(xs))\<close>: the distinct members in ascending order of code points\<close>
  "sorted_set xs = sort (remdups xs)"

section \<open>The documents\<close>

text \<open>
  The two JSON documents, after \<^verbatim>\<open>json.load\<close>, with the shapes the program expects:
  objects where it indexes objects and strings where it reads text. A key the program
  tests for (\<^verbatim>\<open>k in d\<close>, \<^verbatim>\<open>d.get(k)\<close>) is an \<^typ>\<open>'a option\<close>, and a key it tests with
  \<^verbatim>\<open>isinstance(v, list)\<close> is a \<open>jfield\<close>. The fields \<open>dev_repr\<close> and \<open>st_repr\<close> hold
  the text Python prints for the whole object in the two messages that quote it; it
  depends on all the keys of the object and their order in the document.
\<close>

datatype 'a jfield = Absent | NotList | Items "'a list"

record device =
  dev_id :: "string option"
  dev_type :: "string option"
  dev_attributes :: "string list option"
  dev_repr :: string

record state =
  st_id :: "string option"
  st_invariants :: "string jfield"
  st_repr :: string

record transition =
  tr_source :: "string option"
  tr_target :: "string option"
  tr_trigger :: "string option"
  tr_action :: "string option"

record spec =
  sp_bundle_name :: "string option"
  sp_devices :: "device jfield"
  sp_states :: "state jfield"
  sp_transitions :: "transition jfield"
  sp_has_notes :: bool

record cap_type =
  ct_attributes :: "string \<rightharpoonup> string list"
  ct_actions :: "string list"

record caps_root =
  caps_devices :: "(string \<rightharpoonup> cap_type) option"
  caps_ops :: "string list option"
  caps_bool_ops :: "string list option"

datatype py_exn = KeyError string | IndexError | TypeError

section \<open>The validator\<close>

text \<open>
  \<^verbatim>\<open>ERRS\<close> is a list of the module, created once when the module is loaded and appended
  to by \<^verbatim>\<open>err\<close>. Every function that can reach \<^verbatim>\<open>err\<close> takes the list as it is at
  the call and returns it as it is after. A function that can raise returns
  \<^typ>\<open>py_exn + 'a\<close>; an exception is never caught, so it ends the run.
\<close>

type_synonym errs = "string list"

definition err :: "string \<Rightarrow> errs \<Rightarrow> errs" where
  "err msg ERRS = ERRS @ [msg]"

fun devices_loop ::
  "device list \<Rightarrow> (string \<rightharpoonup> cap_type) \<Rightarrow> (string \<rightharpoonup> string) \<Rightarrow> errs
     \<Rightarrow> (string \<rightharpoonup> string) \<times> errs" where
  "devices_loop [] cd dev_map ERRS = (dev_map, ERRS)"
| "devices_loop (d # ds) cd dev_map ERRS =
     (case (dev_id d, dev_type d, dev_attributes d) of
        (Some did, Some dtype, Some attrs) \<Rightarrow>
          (case cd dtype of
             None \<Rightarrow> devices_loop ds cd dev_map (err (''Unknown device type: '' @ dtype) ERRS)
           | Some ct \<Rightarrow>
               (let E1 = (if dev_map did \<noteq> None
                          then err (''Duplicate device id: '' @ did) ERRS else ERRS);
                    invalid = sorted_set (filter (\<lambda>a. ct_attributes ct a = None) attrs);
                    E2 = (if invalid \<noteq> []
                          then err (''Device '' @ did @ '' attributes invalid: '' @ repr_list invalid) E1
                          else E1)
                in devices_loop ds cd (dev_map(did \<mapsto> dtype)) E2))
      | _ \<Rightarrow> devices_loop ds cd dev_map (err (''Device missing keys: '' @ dev_repr d) ERRS))"

fun required_loop :: "string list \<Rightarrow> (string \<rightharpoonup> string) \<Rightarrow> errs \<Rightarrow> errs" where
  "required_loop [] dev_map ERRS = ERRS"
| "required_loop (must # ms) dev_map ERRS =
     required_loop ms dev_map
       (if dev_map must = None then err (''Required device missing: '' @ must) ERRS else ERRS)"

definition validate_devices ::
  "spec \<Rightarrow> caps_root \<Rightarrow> errs \<Rightarrow> ((string \<rightharpoonup> string) \<times> (string \<rightharpoonup> cap_type)) \<times> errs" where
  "validate_devices sp caps ERRS =
     (case sp_devices sp of
        Items ds \<Rightarrow>
          (let cd = (case caps_devices caps of None \<Rightarrow> Map.empty | Some m \<Rightarrow> m)
           in case devices_loop ds cd Map.empty ERRS of
                (dev_map, E1) \<Rightarrow>
                  ((dev_map, cd),
                   required_loop [''presenceSensor'', ''motionSensor'', ''switch''] dev_map E1))
      | _ \<Rightarrow> ((Map.empty, Map.empty), err ''Missing devices[]'' ERRS))"

definition validate_atom ::
  "string \<Rightarrow> (string \<rightharpoonup> string) \<Rightarrow> (string \<rightharpoonup> cap_type) \<Rightarrow> string set \<Rightarrow> errs
     \<Rightarrow> py_exn + errs" where
  "validate_atom atom dev_map cd ops ERRS =
     (case TRIG_ATOM_RE_match atom of
        None \<Rightarrow> Inr (err (''Bad trigger atom: '' @ atom) ERRS)
      | Some (dev, attr, op, val) \<Rightarrow>
          (case dev_map dev of
             None \<Rightarrow> Inr (err (''Unknown device in trigger: '' @ dev) ERRS)
           | Some dtype \<Rightarrow>
               (case cd dtype of
                  None \<Rightarrow> Inl (KeyError dtype)
                | Some ct \<Rightarrow>
                    (case ct_attributes ct attr of
                       None \<Rightarrow> Inr (err (''Unknown attribute '' @ dev @ ''.'' @ attr) ERRS)
                     | Some allowed \<Rightarrow>
                         (let E1 = (if op \<notin> ops
                                    then err (''Invalid operator '' @ op @ '' in '' @ atom) ERRS
                                    else ERRS)
                          in Inr (if val \<notin> set allowed
                                  then err (''Invalid value '' @ val @ '' for '' @ dev @ ''.'' @ attr
                                            @ ''; allowed='' @ repr_list (sorted_set allowed)) E1
                                  else E1))))))"

fun trigger_loop ::
  "string list \<Rightarrow> bool \<Rightarrow> (string \<rightharpoonup> string) \<Rightarrow> (string \<rightharpoonup> cap_type) \<Rightarrow> string list
     \<Rightarrow> string set \<Rightarrow> errs \<Rightarrow> py_exn + (bool \<times> errs)" where
  "trigger_loop [] expect_atom dev_map cd bool_ops ops ERRS = Inr (expect_atom, ERRS)"
| "trigger_loop (tok # toks) expect_atom dev_map cd bool_ops ops ERRS =
     (if expect_atom
      then (case validate_atom tok dev_map cd ops ERRS of
              Inl e \<Rightarrow> Inl e
            | Inr E1 \<Rightarrow> trigger_loop toks False dev_map cd bool_ops ops E1)
      else trigger_loop toks True dev_map cd bool_ops ops
             (if tok \<notin> set bool_ops
              then err (''Expected boolean op between atoms, got: '' @ tok) ERRS
              else ERRS))"

definition validate_trigger ::
  "string \<Rightarrow> (string \<rightharpoonup> string) \<Rightarrow> (string \<rightharpoonup> cap_type) \<Rightarrow> string list \<Rightarrow> string set
     \<Rightarrow> errs \<Rightarrow> py_exn + errs" where
  "validate_trigger expr dev_map cd bool_ops ops ERRS =
     (let tokens = split_bool expr bool_ops
      in case trigger_loop tokens True dev_map cd bool_ops ops ERRS of
           Inl e \<Rightarrow> Inl e
         | Inr (expect_atom, E1) \<Rightarrow>
             Inr (if tokens \<noteq> [] \<and> expect_atom
                  then err ''Trigger expression ends with operator'' E1
                  else E1))"

definition validate_action ::
  "string \<Rightarrow> (string \<rightharpoonup> string) \<Rightarrow> (string \<rightharpoonup> cap_type) \<Rightarrow> errs \<Rightarrow> py_exn + errs" where
  "validate_action act dev_map cd ERRS =
     (case ACTION_RE_match act of
        None \<Rightarrow> Inr (err (''Bad action syntax: '' @ act) ERRS)
      | Some (dev, cmd) \<Rightarrow>
          (case dev_map dev of
             None \<Rightarrow> Inr (err (''Unknown device in action: '' @ dev) ERRS)
           | Some dtype \<Rightarrow>
               (case cd dtype of
                  None \<Rightarrow> Inl (KeyError dtype)
                | Some ct \<Rightarrow>
                    Inr (if cmd \<notin> set (ct_actions ct)
                         then err (''Command '' @ cmd @ '' not allowed for '' @ dev @ '' (type ''
                                   @ dtype @ ''); allowed='' @ repr_list (sorted_set (ct_actions ct)))
                                ERRS
                         else ERRS))))"

text \<open>
  The body of \<^verbatim>\<open>main\<close>. The checks of a state's invariants are written out there a
  second time, not through \<^verbatim>\<open>validate_atom\<close>: after an unknown attribute the loop goes
  on to the operator and to the lookup \<^verbatim>\<open>caps_devices[dtype]["attributes"][attr]\<close>.
\<close>

fun invariants_loop ::
  "string list \<Rightarrow> string \<Rightarrow> (string \<rightharpoonup> string) \<Rightarrow> (string \<rightharpoonup> cap_type) \<Rightarrow> string set
     \<Rightarrow> errs \<Rightarrow> py_exn + errs" where
  "invariants_loop [] sid dev_map cd ops ERRS = Inr ERRS"
| "invariants_loop (iv # ivs) sid dev_map cd ops ERRS =
     (case TRIG_ATOM_RE_match iv of
        None \<Rightarrow>
          invariants_loop ivs sid dev_map cd ops
            (err (''Bad invariant atom in state '' @ sid @ '': '' @ iv) ERRS)
      | Some (dev, attr, op, val) \<Rightarrow>
          (case dev_map dev of
             None \<Rightarrow>
               invariants_loop ivs sid dev_map cd ops
                 (err (''Unknown device in invariant: '' @ dev) ERRS)
           | Some dtype \<Rightarrow>
               (case cd dtype of
                  None \<Rightarrow> Inl (KeyError dtype)
                | Some ct \<Rightarrow>
                    (let E1 = (if ct_attributes ct attr = None
                               then err (''Unknown attribute '' @ dev @ ''.'' @ attr @ '' in invariant'') ERRS
                               else ERRS);
                         E2 = (if op \<notin> ops
                               then err (''Invalid operator '' @ op @ '' in invariant'') E1
                               else E1)
                     in case ct_attributes ct attr of
                          None \<Rightarrow> Inl (KeyError attr)
                        | Some allowed \<Rightarrow>
                            invariants_loop ivs sid dev_map cd ops
                              (if val \<notin> set allowed
                               then err (''Invalid value '' @ val @ '' for '' @ dev @ ''.'' @ attr
                                         @ '' in invariant'') E2
                               else E2)))))"

fun states_loop ::
  "state list \<Rightarrow> (string \<rightharpoonup> string) \<Rightarrow> (string \<rightharpoonup> cap_type) \<Rightarrow> string set \<Rightarrow> string set
     \<Rightarrow> errs \<Rightarrow> py_exn + (string set \<times> errs)" where
  "states_loop [] dev_map cd ops state_ids ERRS = Inr (state_ids, ERRS)"
| "states_loop (st # sts) dev_map cd ops state_ids ERRS =
     (case st_id st of
        None \<Rightarrow>
          states_loop sts dev_map cd ops state_ids (err (''State missing id: '' @ st_repr st) ERRS)
      | Some sid \<Rightarrow>
          (let E1 = (if sid \<in> state_ids then err (''Duplicate state id: '' @ sid) ERRS else ERRS);
               ids1 = insert sid state_ids
           in case st_invariants st of
                NotList \<Rightarrow>
                  states_loop sts dev_map cd ops ids1
                    (err (''State '' @ sid @ '' invariants must be list'') E1)
              | Absent \<Rightarrow>
                  (case invariants_loop [] sid dev_map cd ops E1 of
                     Inl e \<Rightarrow> Inl e
                   | Inr E2 \<Rightarrow> states_loop sts dev_map cd ops ids1 E2)
              | Items invs \<Rightarrow>
                  (case invariants_loop invs sid dev_map cd ops E1 of
                     Inl e \<Rightarrow> Inl e
                   | Inr E2 \<Rightarrow> states_loop sts dev_map cd ops ids1 E2)))"

fun missing_keys_loop :: "(string \<times> bool) list \<Rightarrow> string \<Rightarrow> errs \<Rightarrow> errs" where
  \<comment> \<open>\<^verbatim>\<open>for k in (...): if k not in obj: err(prefix + k)\<close>, each key with its presence\<close>
  "missing_keys_loop [] prefix ERRS = ERRS"
| "missing_keys_loop ((k, present) # ks) prefix ERRS =
     missing_keys_loop ks prefix (if present then ERRS else err (prefix @ k) ERRS)"

fun transitions_loop ::
  "transition list \<Rightarrow> nat \<Rightarrow> string set \<Rightarrow> (string \<rightharpoonup> string) \<Rightarrow> (string \<rightharpoonup> cap_type)
     \<Rightarrow> string list \<Rightarrow> string set \<Rightarrow> errs \<Rightarrow> py_exn + errs" where
  "transitions_loop [] i state_ids dev_map cd bool_ops ops ERRS = Inr ERRS"
| "transitions_loop (tr # trs) i state_ids dev_map cd bool_ops ops ERRS =
     (let E1 = missing_keys_loop
                 [(''source'', tr_source tr \<noteq> None), (''target'', tr_target tr \<noteq> None),
                  (''trigger'', tr_trigger tr \<noteq> None), (''action'', tr_action tr \<noteq> None)]
                 (''Transition '' @ str_nat i @ '' missing '') ERRS;
          src = tr_source tr;
          tgt = tr_target tr;
          E2 = (if (case src of None \<Rightarrow> True | Some s \<Rightarrow> s \<notin> state_ids)
                then err (''Transition '' @ str_nat i @ '' unknown source: '' @ str_opt src) E1
                else E1);
          E3 = (if (case tgt of None \<Rightarrow> True | Some t \<Rightarrow> t \<notin> state_ids)
                then err (''Transition '' @ str_nat i @ '' unknown target: '' @ str_opt tgt) E2
                else E2)
      in case validate_trigger (case tr_trigger tr of None \<Rightarrow> [] | Some t \<Rightarrow> t)
                dev_map cd bool_ops ops E3 of
           Inl e \<Rightarrow> Inl e
         | Inr E4 \<Rightarrow>
             (case validate_action (case tr_action tr of None \<Rightarrow> [] | Some a \<Rightarrow> a) dev_map cd E4 of
                Inl e \<Rightarrow> Inl e
              | Inr E5 \<Rightarrow> transitions_loop trs (i + 1) state_ids dev_map cd bool_ops ops E5))"

definition is_present :: "'a jfield \<Rightarrow> bool" where
  "is_present f = (f \<noteq> Absent)"

definition validate :: "spec \<Rightarrow> caps_root \<Rightarrow> errs \<Rightarrow> py_exn + errs" where
  \<comment> \<open>\<^verbatim>\<open>main\<close> from the operators of the schema to the last transition, on the loaded
      documents, from \<^verbatim>\<open>ERRS\<close> as it is when \<^verbatim>\<open>main\<close> is entered\<close>
  "validate sp caps ERRS =
     (let ops = set (case caps_ops caps of None \<Rightarrow> [] | Some l \<Rightarrow> l);
          bool_ops = (case caps_bool_ops caps of None \<Rightarrow> [''&&'', ''||''] | Some l \<Rightarrow> l);
          E1 = missing_keys_loop
                 [(''bundle_name'', sp_bundle_name sp \<noteq> None), (''devices'', is_present (sp_devices sp)),
                  (''states'', is_present (sp_states sp)),
                  (''transitions'', is_present (sp_transitions sp)), (''notes'', sp_has_notes sp)]
                 ''Missing key: '' ERRS
      in case validate_devices sp caps E1 of
           ((dev_map, cd), E2) \<Rightarrow>
             (case (case sp_states sp of
                      Items sts \<Rightarrow> states_loop sts dev_map cd ops {} E2
                    | _ \<Rightarrow> Inr ({}, E2)) of
                Inl e \<Rightarrow> Inl e
              | Inr (state_ids, E3) \<Rightarrow>
                  (case sp_transitions sp of
                     Items trs \<Rightarrow> transitions_loop trs 1 state_ids dev_map cd bool_ops ops E3
                   | _ \<Rightarrow> Inr E3)))"

definition report :: "errs \<Rightarrow> string list \<times> nat" where
  \<comment> \<open>the end of \<^verbatim>\<open>main\<close>: the lines printed and the exit status\<close>
  "report ERRS = (if ERRS \<noteq> [] then (map (\<lambda>e. ''- '' @ e) ERRS, 1) else ([''OK''], 0))"

definition main :: "spec \<Rightarrow> caps_root \<Rightarrow> errs \<Rightarrow> py_exn + (string list \<times> nat)" where
  "main sp caps ERRS =
     (case validate sp caps ERRS of Inl e \<Rightarrow> Inl e | Inr E \<Rightarrow> Inr (report E))"

section \<open>The identifiers of gen_uml_from_spec.py\<close>

text \<open>
  The three sections of the model document, as lists of lines. The functions take the
  lists \<^verbatim>\<open>states\<close> and \<^verbatim>\<open>transitions\<close> of the spec and the dictionary
  \<^verbatim>\<open>state_xmi_ids\<close>. A subscript on a missing key raises \<^verbatim>\<open>KeyError\<close> and
  \<^verbatim>\<open>states[0]\<close> on an empty list raises \<^verbatim>\<open>IndexError\<close>. Where the generator iterates
  the invariants of a state and the value is not a list, the model raises
  \<^verbatim>\<open>TypeError\<close>, as Python does for a number, a boolean or null; over a text or an
  object Python would iterate the characters or the keys, which the model does not
  follow. The validator records a diagnostic for every such value, so on a spec that
  validation accepts the invariants of every state are a list or absent.
\<close>

definition replace_char :: "char \<Rightarrow> string \<Rightarrow> string \<Rightarrow> string" where
  \<comment> \<open>\<^verbatim>\<open>s.replace(c, r)\<close> for a text \<^verbatim>\<open>c\<close> of one character\<close>
  "replace_char c r s = concat (map (\<lambda>x. if x = c then r else [x]) s)"

definition h :: "string \<Rightarrow> string" where
  \<comment> \<open>\<^verbatim>\<open>html.escape(x, quote=True)\<close>\<close>
  \<open>h x = replace_char (CHR 0x27) ''&#x27;''
           (replace_char dquote ''&quot;''
             (replace_char (CHR ''>'') ''&gt;''
               (replace_char (CHR ''<'') ''&lt;''
                 (replace_char (CHR ''&'') ''&amp;'' x))))\<close>

fun match_prefix :: "string \<Rightarrow> string \<Rightarrow> string option" where
  \<comment> \<open>the text after a literal prefix\<close>
  "match_prefix [] s = Some s"
| "match_prefix (p # ps) [] = None"
| "match_prefix (p # ps) (c # cs) = (if p = c then match_prefix ps cs else None)"

definition notpresent_match :: "string \<Rightarrow> string \<Rightarrow> (string \<times> nat) option" where
  \<comment> \<open>\<^verbatim>\<open>(presenceSensor\.presence\s*OP\s*)"notpresent"\<close> at the start of the text: the
      group and the length of the match\<close>
  \<open>notpresent_match op s =
     (case match_prefix ''presenceSensor.presence'' s of
        None \<Rightarrow> None
      | Some r1 \<Rightarrow>
          (let ws1 = takeWhile is_space r1
           in case match_prefix op (dropWhile is_space r1) of
                None \<Rightarrow> None
              | Some r3 \<Rightarrow>
                  (let ws2 = takeWhile is_space r3
                   in case match_prefix ''"notpresent"'' (dropWhile is_space r3) of
                        None \<Rightarrow> None
                      | Some r5 \<Rightarrow>
                          (let g = ''presenceSensor.presence'' @ ws1 @ op @ ws2
                           in Some (g, length g + 12)))))\<close>

fun sub_notpresent :: "string \<Rightarrow> nat \<Rightarrow> string \<Rightarrow> string" where
  \<comment> \<open>\<^verbatim>\<open>re.sub\<close> with the replacement \<^verbatim>\<open>\1"not present"\<close>: the text is scanned from the
      left; \<open>k\<close> characters of a match are still to be passed over\<close>
  "sub_notpresent op k [] = []"
| "sub_notpresent op (Suc k) (c # cs) = sub_notpresent op k cs"
| \<open>sub_notpresent op 0 (c # cs) =
     (case notpresent_match op (c # cs) of
        Some (g, n) \<Rightarrow> g @ ''"not present"'' @ sub_notpresent op (n - 1) cs
      | None \<Rightarrow> c # sub_notpresent op 0 cs)\<close>

definition normalize_expr :: "string \<Rightarrow> string" where
  "normalize_expr expr = sub_notpresent ''!='' 0 (sub_notpresent ''=='' 0 expr)"

fun state_xmi_ids_loop :: "state list \<Rightarrow> (string \<rightharpoonup> string) \<Rightarrow> py_exn + (string \<rightharpoonup> string)" where
  \<comment> \<open>\<^verbatim>\<open>{s["id"]: f's_{s["id"]}' for s in states}\<close>\<close>
  "state_xmi_ids_loop [] m = Inr m"
| "state_xmi_ids_loop (s # ss) m =
     (case st_id s of
        None \<Rightarrow> Inl (KeyError ''id'')
      | Some sid \<Rightarrow> state_xmi_ids_loop ss (m(sid \<mapsto> ''s_'' @ sid)))"

fun state_nodes_loop :: "state list \<Rightarrow> (string \<rightharpoonup> string) \<Rightarrow> string list \<Rightarrow> py_exn + string list" where
  "state_nodes_loop [] ids out = Inr out"
| \<open>state_nodes_loop (s # ss) ids out =
     (case st_id s of
        None \<Rightarrow> Inl (KeyError ''id'')
      | Some sid \<Rightarrow>
          (case ids sid of
             None \<Rightarrow> Inl (KeyError sid)
           | Some x \<Rightarrow>
               state_nodes_loop ss ids
                 (out @ [''      <subvertex xmi:type="uml:State" xmi:id="'' @ x @ ''" name="''
                         @ h sid @ ''"/>''])))\<close>

definition make_state_nodes :: "state list \<Rightarrow> (string \<rightharpoonup> string) \<Rightarrow> py_exn + string list" where
  \<open>make_state_nodes states ids =
     (case state_nodes_loop states ids
             [''      <subvertex xmi:type="uml:Pseudostate" xmi:id="init_1"/>''] of
        Inl e \<Rightarrow> Inl e
      | Inr out \<Rightarrow> Inr (out @ [''      <subvertex xmi:type="uml:FinalState" xmi:id="final_1"/>'']))\<close>

definition subscript :: "string \<Rightarrow> string option \<Rightarrow> (string \<rightharpoonup> string) \<Rightarrow> py_exn + string" where
  \<comment> \<open>\<^verbatim>\<open>state_xmi_ids[obj[key]]\<close>\<close>
  "subscript key v ids =
     (case v of
        None \<Rightarrow> Inl (KeyError key)
      | Some k \<Rightarrow> (case ids k of None \<Rightarrow> Inl (KeyError k) | Some x \<Rightarrow> Inr x))"

fun transitions_lines_loop ::
  "transition list \<Rightarrow> nat \<Rightarrow> (string \<rightharpoonup> string) \<Rightarrow> string list \<Rightarrow> py_exn + string list" where
  "transitions_lines_loop [] i ids out = Inr out"
| \<open>transitions_lines_loop (tr # trs) i ids out =
     (let tid = ''t_'' @ str_nat i
      in case subscript ''source'' (tr_source tr) ids of
           Inl e \<Rightarrow> Inl e
         | Inr src \<Rightarrow>
             (case subscript ''target'' (tr_target tr) ids of
                Inl e \<Rightarrow> Inl e
              | Inr tgt \<Rightarrow>
                  transitions_lines_loop trs (i + 1) ids
                    (out @ [''      <transition xmi:type="uml:Transition" xmi:id="'' @ tid
                            @ ''" source="'' @ src @ ''" target="'' @ tgt @ ''"/>''])))\<close>

definition make_transitions ::
  "state list \<Rightarrow> transition list \<Rightarrow> (string \<rightharpoonup> string) \<Rightarrow> py_exn + string list" where
  \<open>make_transitions states transitions ids =
     (case states of
        [] \<Rightarrow> Inl IndexError
      | s0 # _ \<Rightarrow>
          (case subscript ''id'' (st_id s0) ids of
             Inl e \<Rightarrow> Inl e
           | Inr x \<Rightarrow>
               transitions_lines_loop transitions 1 ids
                 [''      <transition xmi:type="uml:Transition" xmi:id="t_init" source="init_1" target="''
                  @ x @ ''"/>'']))\<close>

fun stereo_states_loop ::
  "state list \<Rightarrow> nat \<Rightarrow> (string \<rightharpoonup> string) \<Rightarrow> string list \<Rightarrow> py_exn + string list" where
  "stereo_states_loop [] inv_counter ids out = Inr out"
| \<open>stereo_states_loop (s # ss) inv_counter ids out =
     (case subscript ''id'' (st_id s) ids of
        Inl e \<Rightarrow> Inl e
      | Inr base \<Rightarrow>
          (case st_invariants s of
             NotList \<Rightarrow> Inl TypeError
           | f \<Rightarrow>
               stereo_states_loop ss (inv_counter + 1) ids
                 (out
                  @ [''  <MDSSED:states xmi:id="stinv_'' @ str_nat inv_counter @ ''" base_State="''
                     @ base @ ''">'']
                  @ map (\<lambda>iv. ''    <state>'' @ h (normalize_expr iv) @ ''</state>'')
                      (case f of Items ivs \<Rightarrow> ivs | _ \<Rightarrow> [])
                  @ [''  </MDSSED:states>''])))\<close>

fun stereo_transitions_loop :: "transition list \<Rightarrow> nat \<Rightarrow> string list \<Rightarrow> py_exn + string list" where
  "stereo_transitions_loop [] i out = Inr out"
| \<open>stereo_transitions_loop (tr # trs) i out =
     (let tid = ''t_'' @ str_nat i
      in case tr_trigger tr of
           None \<Rightarrow> Inl (KeyError ''trigger'')
         | Some trig \<Rightarrow>
             (case tr_action tr of
                None \<Rightarrow> Inl (KeyError ''action'')
              | Some act \<Rightarrow>
                  stereo_transitions_loop trs (i + 1)
                    (out
                     @ [''  <MDSSED:triggers xmi:id="trig_'' @ str_nat i @ ''" base_Transition="''
                        @ tid @ ''">'',
                        ''    <trigger>'' @ h (normalize_expr trig) @ ''</trigger>'',
                        ''  </MDSSED:triggers>'',
                        ''  <MDSSED:actions xmi:id="act_'' @ str_nat i @ ''" base_Transition="''
                        @ tid @ ''">'',
                        ''    <action>'' @ h act @ ''</action>'',
                        ''  </MDSSED:actions>''])))\<close>

definition make_stereotypes ::
  "state list \<Rightarrow> transition list \<Rightarrow> (string \<rightharpoonup> string) \<Rightarrow> py_exn + string list" where
  "make_stereotypes states transitions ids =
     (case stereo_states_loop states 1 ids [] of
        Inl e \<Rightarrow> Inl e
      | Inr out \<Rightarrow> stereo_transitions_loop transitions 1 out)"

definition build_sections ::
  "state list \<Rightarrow> transition list \<Rightarrow> py_exn + (string list \<times> string list \<times> string list)" where
  \<comment> \<open>\<^verbatim>\<open>main\<close> of the generator from the dictionary of the state ids to the three sections\<close>
  "build_sections states transitions =
     (case state_xmi_ids_loop states Map.empty of
        Inl e \<Rightarrow> Inl e
      | Inr ids \<Rightarrow>
          (case make_state_nodes states ids of
             Inl e \<Rightarrow> Inl e
           | Inr state_xml \<Rightarrow>
               (case make_transitions states transitions ids of
                  Inl e \<Rightarrow> Inl e
                | Inr trans_xml \<Rightarrow>
                    (case make_stereotypes states transitions ids of
                       Inl e \<Rightarrow> Inl e
                     | Inr stereo_xml \<Rightarrow> Inr (state_xml, trans_xml, stereo_xml)))))"

section \<open>The identifier scheme in the words of the specification\<close>

text \<open>
  The scheme of the specification, on a validated bundle read as plain data: a state is
  its id and its invariants, a transition its source, target, trigger and action. The
  lines are written from the identifiers the scheme assigns; the generator above is
  compared with them.
\<close>

definition plain_state :: "state \<Rightarrow> (string \<times> string list) option" where
  "plain_state s =
     (case st_id s of
        None \<Rightarrow> None
      | Some sid \<Rightarrow>
          (case st_invariants s of
             NotList \<Rightarrow> None
           | Absent \<Rightarrow> Some (sid, [])
           | Items ivs \<Rightarrow> Some (sid, ivs)))"

definition plain_transition :: "transition \<Rightarrow> (string \<times> string \<times> string \<times> string) option" where
  "plain_transition tr =
     (case (tr_source tr, tr_target tr, tr_trigger tr, tr_action tr) of
        (Some src, Some tgt, Some trig, Some act) \<Rightarrow> Some (src, tgt, trig, act)
      | _ \<Rightarrow> None)"

definition ext_state_id :: "string \<Rightarrow> string" where
  "ext_state_id S = ''s_'' @ S"

definition init_node_id :: string where
  "init_node_id = ''init_1''"

definition final_node_id :: string where
  "final_node_id = ''final_1''"

definition init_transition_id :: string where
  "init_transition_id = ''t_init''"

definition ext_transition_id :: "nat \<Rightarrow> string" where
  "ext_transition_id n = ''t_'' @ str_nat n"

definition trig_id :: "nat \<Rightarrow> string" where
  "trig_id n = ''trig_'' @ str_nat n"

definition act_id :: "nat \<Rightarrow> string" where
  "act_id n = ''act_'' @ str_nat n"

definition stinv_id :: "nat \<Rightarrow> string" where
  "stinv_id k = ''stinv_'' @ str_nat k"

definition subvertex_line :: "string \<Rightarrow> string \<Rightarrow> string" where
  \<open>subvertex_line kind xid =
     ''      <subvertex xmi:type="uml:'' @ kind @ ''" xmi:id="'' @ xid @ ''"/>''\<close>

definition state_line :: "string \<Rightarrow> string \<Rightarrow> string" where
  \<open>state_line xid name =
     ''      <subvertex xmi:type="uml:State" xmi:id="'' @ xid @ ''" name="'' @ h name @ ''"/>''\<close>

definition transition_line :: "string \<Rightarrow> string \<Rightarrow> string \<Rightarrow> string" where
  \<open>transition_line xid src tgt =
     ''      <transition xmi:type="uml:Transition" xmi:id="'' @ xid @ ''" source="'' @ src
     @ ''" target="'' @ tgt @ ''"/>''\<close>

definition invariant_block :: "string \<Rightarrow> string \<Rightarrow> string list \<Rightarrow> string list" where
  \<open>invariant_block xid base invs =
     [''  <MDSSED:states xmi:id="'' @ xid @ ''" base_State="'' @ base @ ''">'']
     @ map (\<lambda>iv. ''    <state>'' @ h (normalize_expr iv) @ ''</state>'') invs
     @ [''  </MDSSED:states>'']\<close>

definition trigger_block :: "string \<Rightarrow> string \<Rightarrow> string \<Rightarrow> string list" where
  \<open>trigger_block xid base trig =
     [''  <MDSSED:triggers xmi:id="'' @ xid @ ''" base_Transition="'' @ base @ ''">'',
      ''    <trigger>'' @ h (normalize_expr trig) @ ''</trigger>'',
      ''  </MDSSED:triggers>'']\<close>

definition action_block :: "string \<Rightarrow> string \<Rightarrow> string \<Rightarrow> string list" where
  \<open>action_block xid base act =
     [''  <MDSSED:actions xmi:id="'' @ xid @ ''" base_Transition="'' @ base @ ''">'',
      ''    <action>'' @ h act @ ''</action>'',
      ''  </MDSSED:actions>'']\<close>

definition expected_state_nodes :: "(string \<times> string list) list \<Rightarrow> string list" where
  "expected_state_nodes ps =
     [subvertex_line ''Pseudostate'' init_node_id]
     @ map (\<lambda>(S, invs). state_line (ext_state_id S) S) ps
     @ [subvertex_line ''FinalState'' final_node_id]"

definition expected_transitions ::
  "(string \<times> string list) list \<Rightarrow> (string \<times> string \<times> string \<times> string) list \<Rightarrow> string list" where
  "expected_transitions ps pt =
     transition_line init_transition_id init_node_id (ext_state_id (fst (hd ps)))
     # map (\<lambda>(n, (src, tgt, trig, act)).
              transition_line (ext_transition_id n) (ext_state_id src) (ext_state_id tgt))
         (enumerate 1 pt)"

definition expected_stereotypes ::
  "(string \<times> string list) list \<Rightarrow> (string \<times> string \<times> string \<times> string) list \<Rightarrow> string list" where
  "expected_stereotypes ps pt =
     concat (map (\<lambda>(k, (S, invs)). invariant_block (stinv_id k) (ext_state_id S) invs)
               (enumerate 1 ps))
     @ concat (map (\<lambda>(n, (src, tgt, trig, act)).
                      trigger_block (trig_id n) (ext_transition_id n) trig
                      @ action_block (act_id n) (ext_transition_id n) act)
                 (enumerate 1 pt))"

section \<open>The shape of an atom\<close>

definition is_ident :: "string \<Rightarrow> bool" where
  \<comment> \<open>the texts of \<^verbatim>\<open>[a-zA-Z_]\w*\<close>\<close>
  "is_ident s = (case s of [] \<Rightarrow> False | c # cs \<Rightarrow> is_ident_start c \<and> list_all is_word cs)"

definition is_cmp_op :: "string \<Rightarrow> bool" where
  \<comment> \<open>the texts of \<^verbatim>\<open>(==|!=)\<close>\<close>
  "is_cmp_op s = (s = ''=='' \<or> s = ''!='')"

definition atom_text :: "string \<Rightarrow> string \<Rightarrow> string \<Rightarrow> string \<Rightarrow> string \<Rightarrow> string \<Rightarrow> string \<Rightarrow> string \<Rightarrow> string" where
  \<comment> \<open>\<^verbatim>\<open>device.attribute OP "value"\<close> with the whitespace the pattern allows\<close>
  "atom_text ws0 dev attr ws1 op ws2 val ws3 =
     ws0 @ dev @ ''.'' @ attr @ ws1 @ op @ ws2 @ [dquote] @ val @ [dquote] @ ws3"

section \<open>Connectives in a text\<close>

definition is_conn :: "char \<Rightarrow> char \<Rightarrow> bool" where
  \<comment> \<open>the test of \<^verbatim>\<open>split_bool\<close>: \<^verbatim>\<open>&&\<close> or \<^verbatim>\<open>||\<close> starts here\<close>
  "is_conn c1 c2 = ((c1 = CHR ''&'' \<and> c2 = CHR ''&'') \<or> (c1 = CHR ''|'' \<and> c2 = CHR ''|''))"

fun has_conn :: "string \<Rightarrow> bool" where
  \<comment> \<open>a connective starts somewhere in the text\<close>
  "has_conn (c1 # c2 # r) = (is_conn c1 c2 \<or> has_conn (c2 # r))"
| "has_conn _ = False"

section \<open>Diagnostics of one call\<close>

definition app_errs :: "errs \<Rightarrow> py_exn + errs \<Rightarrow> py_exn + errs" where
  \<comment> \<open>the diagnostics of a call, appended to the list as it was at the call\<close>
  "app_errs ERRS r = (case r of Inl e \<Rightarrow> Inl e | Inr ds \<Rightarrow> Inr (ERRS @ ds))"

definition ends_msg :: string where
  "ends_msg = ''Trigger expression ends with operator''"

section \<open>The diagnostics of a run, by the check that records them\<close>

definition schema_ops :: "caps_root \<Rightarrow> string set" where
  "schema_ops caps = set (case caps_ops caps of None \<Rightarrow> [] | Some l \<Rightarrow> l)"

definition schema_bool_ops :: "caps_root \<Rightarrow> string list" where
  "schema_bool_ops caps = (case caps_bool_ops caps of None \<Rightarrow> [''&&'', ''||''] | Some l \<Rightarrow> l)"

definition key_diags :: "spec \<Rightarrow> errs" where
  \<comment> \<open>the missing top-level keys, in the order of the tuple in \<^verbatim>\<open>main\<close>\<close>
  "key_diags sp =
     missing_keys_loop
       [(''bundle_name'', sp_bundle_name sp \<noteq> None), (''devices'', is_present (sp_devices sp)),
        (''states'', is_present (sp_states sp)),
        (''transitions'', is_present (sp_transitions sp)), (''notes'', sp_has_notes sp)]
       ''Missing key: '' []"

definition device_diags :: "spec \<Rightarrow> caps_root \<Rightarrow> errs" where
  "device_diags sp caps = snd (validate_devices sp caps [])"

definition states_result :: "spec \<Rightarrow> caps_root \<Rightarrow> py_exn + (string set \<times> errs)" where
  \<comment> \<open>the loop over the states, from an empty list\<close>
  "states_result sp caps =
     (case fst (validate_devices sp caps []) of
        (dev_map, cd) \<Rightarrow>
          (case sp_states sp of
             Items sts \<Rightarrow> states_loop sts dev_map cd (schema_ops caps) {} []
           | _ \<Rightarrow> Inr ({}, [])))"

definition transition_diags :: "spec \<Rightarrow> caps_root \<Rightarrow> string set \<Rightarrow> py_exn + errs" where
  \<comment> \<open>the loop over the transitions, from an empty list, for the state ids collected\<close>
  "transition_diags sp caps state_ids =
     (case fst (validate_devices sp caps []) of
        (dev_map, cd) \<Rightarrow>
          (case sp_transitions sp of
             Items trs \<Rightarrow>
               transitions_loop trs 1 state_ids dev_map cd (schema_bool_ops caps) (schema_ops caps) []
           | _ \<Rightarrow> Inr []))"

section \<open>The invariants on which the run raises\<close>

definition invariant_attribute_known ::
  "(string \<rightharpoonup> string) \<Rightarrow> (string \<rightharpoonup> cap_type) \<Rightarrow> string \<Rightarrow> bool" where
  \<comment> \<open>the invariant is no atom, or names no declared device, or names an attribute of the
      type of its device\<close>
  "invariant_attribute_known dev_map cd iv =
     (case TRIG_ATOM_RE_match iv of
        None \<Rightarrow> True
      | Some (dev, attr, op, val) \<Rightarrow>
          (case dev_map dev of
             None \<Rightarrow> True
           | Some dtype \<Rightarrow>
               (case cd dtype of None \<Rightarrow> False | Some ct \<Rightarrow> ct_attributes ct attr \<noteq> None)))"

definition state_invariants_known ::
  "(string \<rightharpoonup> string) \<Rightarrow> (string \<rightharpoonup> cap_type) \<Rightarrow> state \<Rightarrow> bool" where
  \<comment> \<open>the invariants that the loop over the states reaches are of that kind\<close>
  "state_invariants_known dev_map cd st =
     (case st_id st of
        None \<Rightarrow> True
      | Some sid \<Rightarrow>
          (case st_invariants st of
             Items invs \<Rightarrow> list_all (invariant_attribute_known dev_map cd) invs
           | _ \<Rightarrow> True))"

section \<open>The scenarios of the specification\<close>

definition switch_type :: cap_type where
  "switch_type = \<lparr>ct_attributes = [''power'' \<mapsto> [''on'', ''off'']], ct_actions = [''toggle'']\<rparr>"

definition scenario_caps :: caps_root where
  "scenario_caps =
     \<lparr>caps_devices = Some [''switch'' \<mapsto> switch_type],
      caps_ops = Some [''=='', ''!=''],
      caps_bool_ops = Some [''&&'', ''||'']\<rparr>"

definition switch_device :: "string \<Rightarrow> device" where
  "switch_device did =
     \<lparr>dev_id = Some did, dev_type = Some ''switch'', dev_attributes = Some [''power''],
      dev_repr = []\<rparr>"

definition scenario_A_states :: "state list" where
  \<open>scenario_A_states =
     [\<lparr>st_id = Some ''Idle'', st_invariants = Items [''switch1.power == "off"''], st_repr = []\<rparr>,
      \<lparr>st_id = Some ''On'', st_invariants = Items [''switch1.power == "on"''], st_repr = []\<rparr>]\<close>

definition scenario_A_transitions :: "transition list" where
  \<open>scenario_A_transitions =
     [\<lparr>tr_source = Some ''Idle'', tr_target = Some ''On'',
       tr_trigger = Some ''switch1.power == "off"'', tr_action = Some ''switch1.toggle()''\<rparr>]\<close>

definition scenario_A :: spec where
  "scenario_A =
     \<lparr>sp_bundle_name = Some ''ScenarioA'',
      sp_devices = Items [switch_device ''switch1''],
      sp_states = Items scenario_A_states,
      sp_transitions = Items scenario_A_transitions,
      sp_has_notes = True\<rparr>"

definition scenario_A_with_baseline :: spec where
  \<comment> \<open>Scenario A with a device declared under each of the three required ids\<close>
  "scenario_A_with_baseline =
     scenario_A\<lparr>sp_devices :=
       Items [switch_device ''switch1'', switch_device ''presenceSensor'',
              switch_device ''motionSensor'', switch_device ''switch'']\<rparr>"

definition scenario_C_dev_map :: "string \<rightharpoonup> string" where
  "scenario_C_dev_map = [''a'' \<mapsto> ''ta'', ''c'' \<mapsto> ''tc'']"

definition scenario_C_caps_devices :: "string \<rightharpoonup> cap_type" where
  \<comment> \<open>a schema under which \<^verbatim>\<open>a.b == "x"\<close> and \<^verbatim>\<open>c.d == "y"\<close> are valid atoms\<close>
  "scenario_C_caps_devices =
     [''ta'' \<mapsto> \<lparr>ct_attributes = [''b'' \<mapsto> [''x'']], ct_actions = []\<rparr>,
      ''tc'' \<mapsto> \<lparr>ct_attributes = [''d'' \<mapsto> [''y'']], ct_actions = []\<rparr>]"

definition scenario_A_without_notes :: spec where
  "scenario_A_without_notes = scenario_A_with_baseline\<lparr>sp_has_notes := False\<rparr>"

definition state_with_invariant :: "string \<Rightarrow> string \<Rightarrow> state" where
  "state_with_invariant sid iv = \<lparr>st_id = Some sid, st_invariants = Items [iv], st_repr = []\<rparr>"

definition scenario_unknown_attribute :: spec where
  \<comment> \<open>Scenario A with the required devices, the invariant of Idle naming an attribute the
      type switch does not have\<close>
  \<open>scenario_unknown_attribute =
     scenario_A_with_baseline\<lparr>sp_states :=
       Items [state_with_invariant ''Idle'' ''switch1.color == "red"'',
              state_with_invariant ''On'' ''switch1.power == "on"'']\<rparr>\<close>

definition scenario_B_trigger :: spec where
  \<comment> \<open>Scenario B: the trigger compares power with a value outside its set\<close>
  \<open>scenario_B_trigger =
     scenario_A_with_baseline\<lparr>sp_transitions :=
       Items [\<lparr>tr_source = Some ''Idle'', tr_target = Some ''On'',
               tr_trigger = Some ''switch1.power == "maybe"'',
               tr_action = Some ''switch1.toggle()''\<rparr>]\<rparr>\<close>

definition scenario_B_invariant :: spec where
  \<comment> \<open>the same comparison as an invariant of the state Idle\<close>
  \<open>scenario_B_invariant =
     scenario_A_with_baseline\<lparr>sp_states :=
       Items [state_with_invariant ''Idle'' ''switch1.power == "maybe"'',
              state_with_invariant ''On'' ''switch1.power == "on"'']\<rparr>\<close>

definition scenario_no_states :: spec where
  \<comment> \<open>the three required devices, no state and no transition\<close>
  "scenario_no_states =
     \<lparr>sp_bundle_name = Some ''Empty'',
      sp_devices = Items [switch_device ''presenceSensor'', switch_device ''motionSensor'',
                          switch_device ''switch''],
      sp_states = Items [],
      sp_transitions = Items [],
      sp_has_notes = True\<rparr>"

section \<open>The tokenizer on text without connectives\<close>

lemma split_loop_plain:
  "\<forall>c \<in> set s. c \<noteq> CHR ''&'' \<and> c \<noteq> CHR ''|'' \<Longrightarrow> split_loop s buf tokens = (tokens, buf @ s)"
  by (induction s buf tokens rule: split_loop.induct) auto

lemma space_not_connective: "is_space c \<Longrightarrow> c \<noteq> CHR ''&'' \<and> c \<noteq> CHR ''|''"
  by (auto simp: is_space_def)

lemma strip_spaces:
  assumes "\<forall>c \<in> set s. is_space c"
  shows "strip s = []"
proof -
  from assms have e: "dropWhile is_space s = []" by simp
  show ?thesis unfolding strip_def e by simp
qed

lemma split_bool_spaces: "\<forall>c \<in> set s. is_space c \<Longrightarrow> split_bool s bool_ops = []"
  using space_not_connective by (simp add: split_bool_def split_loop_plain strip_spaces)

section \<open>Scenario A\<close>

text \<open>
  C1 (as stated): on the bundle of Scenario A the validator returns no diagnostic and the
  tool prints OK. The source requires a device under each of the ids presenceSensor,
  motionSensor and switch, and Scenario A declares only switch1, so the statement fails.
\<close>

theorem scenario_A_not_OK:
  "validate scenario_A scenario_caps [] \<noteq> Inr []
   \<and> main scenario_A scenario_caps [] \<noteq> Inr ([''OK''], 0)"
  by code_simp

text \<open>
  C1 (amended): on the bundle of Scenario A the validator returns exactly the three
  diagnostics of the missing required devices, and the tool prints them and exits with
  status 1; with a device declared under each of the three required ids, the same bundle
  has no diagnostic and the tool prints OK and exits with status 0.
\<close>

theorem scenario_A_diagnostics:
  "validate scenario_A scenario_caps [] =
     Inr [''Required device missing: presenceSensor'',
          ''Required device missing: motionSensor'',
          ''Required device missing: switch'']
   \<and> main scenario_A scenario_caps [] =
     Inr ([''- Required device missing: presenceSensor'',
           ''- Required device missing: motionSensor'',
           ''- Required device missing: switch''], 1)
   \<and> validate scenario_A_with_baseline scenario_caps [] = Inr []
   \<and> main scenario_A_with_baseline scenario_caps [] = Inr ([''OK''], 0)"
  by code_simp

section \<open>Empty triggers\<close>

text \<open>
  C9: a trigger text that is empty or only whitespace passes the trigger check with no
  diagnostic: the tokenizer returns no token, the walk does nothing and the final test
  needs a token.
\<close>

theorem empty_trigger_accepted:
  "\<forall>c \<in> set expr. is_space c \<Longrightarrow>
     validate_trigger expr dev_map cd bool_ops ops ERRS = Inr ERRS"
  by (simp add: validate_trigger_def split_bool_spaces)

theorem empty_trigger_accepted_witness:
  "validate_trigger [CHR '' '', CHR 0x09] Map.empty Map.empty [''&&'', ''||''] {''==''} [''earlier'']
     = Inr [''earlier'']"
  using empty_trigger_accepted [of "[CHR '' '', CHR 0x09]" Map.empty Map.empty "[''&&'', ''||'']" "{''==''}" "[''earlier'']"]
  by (simp add: is_space_def)

section \<open>The atom matcher on text of the shape of an atom\<close>

lemma dropWhile_run:
  "list_all P ws \<Longrightarrow> t = [] \<or> \<not> P (hd t) \<Longrightarrow> dropWhile P (ws @ t) = t"
  by (induction ws) (cases t; simp)+

lemma takeWhile_run:
  "list_all P ws \<Longrightarrow> t = [] \<or> \<not> P (hd t) \<Longrightarrow> takeWhile P (ws @ t) = ws"
  by (induction ws) (cases t; simp)+

lemma take_ident_run:
  "is_ident a \<Longrightarrow> t = [] \<or> \<not> is_word (hd t) \<Longrightarrow> take_ident (a @ t) = Some (a, t)"
  by (cases a) (simp_all add: is_ident_def takeWhile_run dropWhile_run)

lemma ident_start_not_space: "is_ident_start c \<Longrightarrow> \<not> is_space c"
  by (auto simp: is_ident_start_def is_space_def Let_def)

lemma space_not_word: "is_space c \<Longrightarrow> \<not> is_word c"
  by (auto simp: is_word_def is_space_def Let_def)

lemma take_op_run: "is_cmp_op op \<Longrightarrow> take_op (op @ r) = Some (op, r)"
  by (auto simp: is_cmp_op_def)

lemma TRIG_ATOM_RE_match_atom_text:
  assumes ws: "list_all is_space ws0" "list_all is_space ws1" "list_all is_space ws2"
      "list_all is_space ws3"
    and ids: "is_ident dev" "is_ident attr"
    and op: "is_cmp_op op"
    and val: "dquote \<notin> set val"
  shows "TRIG_ATOM_RE_match (atom_text ws0 dev attr ws1 op ws2 val ws3) =
           (if val = [] then None else Some (dev, attr, op, val))"
proof -
  let ?r5 = "val @ dquote # ws3"
  let ?r4 = "ws2 @ dquote # ?r5"
  let ?r3 = "ws1 @ op @ ?r4"
  let ?r2 = "attr @ ?r3"
  let ?r1 = "CHR ''.'' # ?r2"
  have shape: "atom_text ws0 dev attr ws1 op ws2 val ws3 = ws0 @ dev @ ?r1"
    by (simp add: atom_text_def)
  from ids(1) have "\<not> is_space (hd (dev @ ?r1))"
    by (cases dev) (simp_all add: is_ident_def ident_start_not_space)
  with ws(1) have s0: "dropWhile is_space (ws0 @ dev @ ?r1) = dev @ ?r1"
    by (simp add: dropWhile_run)
  have dot: "\<not> is_word (CHR ''.'')" by (simp add: is_word_def)
  have s1: "take_ident (dev @ ?r1) = Some (dev, ?r1)"
    using ids(1) dot by (simp add: take_ident_run)
  have oph: "hd (op @ ?r4) = CHR ''='' \<or> hd (op @ ?r4) = CHR ''!''"
    using op by (auto simp: is_cmp_op_def)
  have opw: "\<not> is_word (hd (op @ ?r4))" "\<not> is_space (hd (op @ ?r4))"
    using oph by (auto simp: is_word_def is_space_def)
  have "\<not> is_word (hd ?r3)"
    using ws(2) opw(1) by (cases ws1) (simp_all add: space_not_word)
  then have s2: "take_ident ?r2 = Some (attr, ?r3)"
    using ids(2) by (simp add: take_ident_run)
  have s3: "dropWhile is_space ?r3 = op @ ?r4"
    using ws(2) opw(2) op by (simp add: dropWhile_run is_cmp_op_def)
  have s4: "take_op (op @ ?r4) = Some (op, ?r4)"
    using op by (rule take_op_run)
  have dq: "\<not> is_space dquote" by (simp add: is_space_def dquote_def)
  have s5: "dropWhile is_space ?r4 = dquote # ?r5"
    using ws(3) dq by (simp add: dropWhile_run)
  have s6: "takeWhile (\<lambda>x. x \<noteq> dquote) ?r5 = val" "dropWhile (\<lambda>x. x \<noteq> dquote) ?r5 = dquote # ws3"
    using val by (induction val) auto
  show ?thesis
    unfolding shape TRIG_ATOM_RE_match_def s0 s1
    using ws(4) by (simp add: s2 s3 s4 s5 s6)
qed

text \<open>
  C10: the literal between the double quotes must not be empty. On every text of the shape
  \<^verbatim>\<open>device.attribute OP ""\<close> the matcher fails, and both users of the matcher record
  their bad-atom diagnostic, whatever the devices and the schema are.
\<close>

theorem empty_literal_rejected:
  assumes "list_all is_space ws0" "list_all is_space ws1" "list_all is_space ws2"
      "list_all is_space ws3" "is_ident dev" "is_ident attr" "is_cmp_op op"
    and "atom = atom_text ws0 dev attr ws1 op ws2 [] ws3"
  shows "TRIG_ATOM_RE_match atom = None
     \<and> validate_atom atom dev_map cd ops ERRS = Inr (ERRS @ [''Bad trigger atom: '' @ atom])
     \<and> invariants_loop [atom] sid dev_map cd ops ERRS =
         Inr (ERRS @ [''Bad invariant atom in state '' @ sid @ '': '' @ atom])"
proof -
  have "TRIG_ATOM_RE_match atom = None"
    using assms by (simp add: TRIG_ATOM_RE_match_atom_text)
  then show ?thesis
    by (simp add: validate_atom_def err_def)
qed

theorem empty_literal_rejected_witness:
  \<open>TRIG_ATOM_RE_match ''switch1.power == ""'' = None
   \<and> validate_atom ''switch1.power == ""'' [''switch1'' \<mapsto> ''switch''] [''switch'' \<mapsto> switch_type]
        {''=='', ''!=''} [] = Inr ([] @ [''Bad trigger atom: '' @ ''switch1.power == ""''])
   \<and> invariants_loop [''switch1.power == ""''] ''Idle'' [''switch1'' \<mapsto> ''switch'']
        [''switch'' \<mapsto> switch_type] {''=='', ''!=''} [] =
        Inr ([] @ [''Bad invariant atom in state '' @ ''Idle'' @ '': '' @ ''switch1.power == ""''])\<close>
  by (rule empty_literal_rejected [of "[]" "'' ''" "'' ''" "[]" "''switch1''" "''power''" "''==''"])
    (simp_all add: is_space_def is_ident_def is_ident_start_def is_word_def is_cmp_op_def
      atom_text_def dquote_def)

section \<open>The shape of the token list\<close>

text \<open>
  The tokenizer appends an atom token and a connective token at every connective, so the
  tokens before the last flush come in pairs, and no atom token holds a connective.
\<close>

lemma has_conn_snoc:
  "has_conn (xs @ [a, b]) = (has_conn (xs @ [a]) \<or> is_conn a b)"
  by (induction xs rule: has_conn.induct) auto

lemma has_conn_prepend: "has_conn xs \<Longrightarrow> has_conn (ys @ xs)"
proof (induction ys)
  case Nil
  then show ?case by simp
next
  case (Cons y ys)
  then show ?case by (cases "ys @ xs") auto
qed

lemma has_conn_append: "has_conn xs \<Longrightarrow> has_conn (xs @ zs)"
  by (induction xs rule: has_conn.induct) auto

lemma split_loop_step:
  "split_loop (c1 # c2 # r) buf tokens =
     (if is_conn c1 c2 then split_loop r [] (tokens @ [strip buf, [c1, c2]])
      else split_loop (c2 # r) (buf @ [c1]) tokens)"
  by (simp add: is_conn_def)

lemma split_loop_buf:
  "\<not> has_conn (buf @ take 1 s) \<Longrightarrow> \<not> has_conn (snd (split_loop s buf tokens))"
proof (induction s buf tokens rule: split_loop.induct)
  case (1 c1 c2 r buf tokens)
  show ?case
  proof (cases "is_conn c1 c2")
    case True
    then have c: "(c1 = CHR ''&'' \<and> c2 = CHR ''&'') \<or> (c1 = CHR ''|'' \<and> c2 = CHR ''|'')"
      unfolding is_conn_def .
    have "\<not> has_conn ([] @ take 1 r)" by (cases r) simp_all
    from 1(1) [OF c this] True show ?thesis
      by (simp del: split_loop.simps add: split_loop_step)
  next
    case False
    then have c: "\<not> ((c1 = CHR ''&'' \<and> c2 = CHR ''&'') \<or> (c1 = CHR ''|'' \<and> c2 = CHR ''|''))"
      unfolding is_conn_def .
    from 1(3) False have "\<not> has_conn ((buf @ [c1]) @ take 1 (c2 # r))"
      using has_conn_snoc [of buf c1 c2] by simp
    from 1(2) [OF c this] False show ?thesis
      by (simp del: split_loop.simps add: split_loop_step)
  qed
qed simp_all

lemma split_loop_tokens:
  "\<exists>ps. fst (split_loop s buf tokens) = tokens @ ps \<and> even (length ps)"
proof (induction s buf tokens rule: split_loop.induct)
  case (1 c1 c2 r buf tokens)
  show ?case
  proof (cases "is_conn c1 c2")
    case True
    then have c: "(c1 = CHR ''&'' \<and> c2 = CHR ''&'') \<or> (c1 = CHR ''|'' \<and> c2 = CHR ''|'')"
      unfolding is_conn_def .
    from 1(1) [OF c] obtain ps where
      "fst (split_loop r [] (tokens @ [strip buf, [c1, c2]])) = (tokens @ [strip buf, [c1, c2]]) @ ps"
      "even (length ps)" by blast
    with True show ?thesis
      by (intro exI [of _ "[strip buf, [c1, c2]] @ ps"])
        (simp del: split_loop.simps add: split_loop_step)
  next
    case False
    then have c: "\<not> ((c1 = CHR ''&'' \<and> c2 = CHR ''&'') \<or> (c1 = CHR ''|'' \<and> c2 = CHR ''|''))"
      unfolding is_conn_def .
    from 1(2) [OF c] False show ?thesis
      by (simp del: split_loop.simps add: split_loop_step)
  qed
qed simp_all

lemma strip_sub: "\<exists>a b. s = a @ strip s @ b"
proof -
  let ?d = "dropWhile is_space s"
  have 1: "s = takeWhile is_space s @ ?d" by simp
  have "rev ?d = takeWhile is_space (rev ?d) @ dropWhile is_space (rev ?d)" by simp
  then have "?d = rev (dropWhile is_space (rev ?d)) @ rev (takeWhile is_space (rev ?d))"
    by (metis rev_append rev_rev_ident)
  then have "?d = strip s @ rev (takeWhile is_space (rev ?d))" by (simp add: strip_def)
  with 1 show ?thesis by metis
qed

lemma strip_no_conn: "\<not> has_conn s \<Longrightarrow> \<not> has_conn (strip s)"
proof
  assume a: "\<not> has_conn s" and b: "has_conn (strip s)"
  obtain x y where s: "s = x @ strip s @ y" using strip_sub by blast
  from b have "has_conn (x @ strip s @ y)" by (simp add: has_conn_append has_conn_prepend)
  with s a show False by simp
qed

lemma split_bool_even:
  assumes "split_bool expr bool_ops \<noteq> []"
    and "last (split_bool expr bool_ops) \<in> {''&&'', ''||''}"
  shows "even (length (split_bool expr bool_ops))"
proof -
  obtain tokens buf where sl: "split_loop expr [] [] = (tokens, buf)" by (cases "split_loop expr [] []")
  from split_loop_tokens [of expr "[]" "[]"] sl have ev: "even (length tokens)" by auto
  have "\<not> has_conn ([] @ take 1 expr)" by (cases expr) simp_all
  from split_loop_buf [OF this, of "[]"] sl have "\<not> has_conn buf" by simp
  then have nc: "\<not> has_conn (strip buf)" by (rule strip_no_conn)
  show ?thesis
  proof (cases "strip buf = []")
    case True
    with sl ev show ?thesis by (simp add: split_bool_def)
  next
    case False
    with sl have "last (split_bool expr bool_ops) = strip buf" by (simp add: split_bool_def)
    with assms(2) have "has_conn (strip buf)" by (auto simp: is_conn_def)
    with nc show ?thesis by simp
  qed
qed

section \<open>The walk over the tokens\<close>

lemma app_errs_simps [simp]:
  "app_errs E (Inl e) = Inl e"
  "app_errs E (Inr ds) = Inr (E @ ds)"
  by (simp_all add: app_errs_def)

lemma app_errs_assoc: "app_errs E (app_errs ds r) = app_errs (E @ ds) r"
  by (cases r) simp_all

lemma app_errs_Nil [simp]: "app_errs [] r = r"
  by (cases r) simp_all

lemma validate_atom_frame:
  "validate_atom atom dev_map cd ops ERRS = app_errs ERRS (validate_atom atom dev_map cd ops [])"
  by (simp add: validate_atom_def err_def Let_def split: option.splits)

lemma validate_atom_total:
  "ran dev_map \<subseteq> dom cd \<Longrightarrow> \<exists>ds. validate_atom atom dev_map cd ops [] = Inr ds \<and> ends_msg \<notin> set ds"
  by (auto simp: validate_atom_def err_def Let_def ends_msg_def ran_def split: option.splits)

lemma trigger_loop_frame:
  "trigger_loop toks f dev_map cd bool_ops ops ERRS =
     (case trigger_loop toks f dev_map cd bool_ops ops [] of
        Inl e \<Rightarrow> Inl e | Inr (f', ds) \<Rightarrow> Inr (f', ERRS @ ds))"
proof (induction toks arbitrary: f ERRS)
  case Nil
  then show ?case by simp
next
  case (Cons tok toks)
  show ?case
  proof (cases f)
    case True
    show ?thesis
    proof (cases "validate_atom tok dev_map cd ops []")
      case (Inl e)
      with True show ?thesis by (simp add: validate_atom_frame [of _ _ _ _ ERRS])
    next
      case (Inr ds)
      with True show ?thesis
        by (simp add: validate_atom_frame [of _ _ _ _ ERRS] Cons.IH [of False "ERRS @ ds"]
            Cons.IH [of False ds] split: sum.splits)
    qed
  next
    case False
    define od where "od = (if tok \<notin> set bool_ops
      then [''Expected boolean op between atoms, got: '' @ tok] else [])"
    have step: "trigger_loop (tok # toks) f dev_map cd bool_ops ops E =
                  trigger_loop toks True dev_map cd bool_ops ops (E @ od)" for E
      using False by (simp add: err_def od_def)
    have a: "trigger_loop toks True dev_map cd bool_ops ops (ERRS @ od) =
        (case trigger_loop toks True dev_map cd bool_ops ops [] of
           Inl e \<Rightarrow> Inl e | Inr (f', ds) \<Rightarrow> Inr (f', (ERRS @ od) @ ds))"
      by (rule Cons.IH)
    have b: "trigger_loop toks True dev_map cd bool_ops ops ([] @ od) =
        (case trigger_loop toks True dev_map cd bool_ops ops [] of
           Inl e \<Rightarrow> Inl e | Inr (f', ds) \<Rightarrow> Inr (f', ([] @ od) @ ds))"
      by (rule Cons.IH)
    show ?thesis
    proof (cases "trigger_loop toks True dev_map cd bool_ops ops []")
      case (Inl e)
      with a b show ?thesis unfolding step by simp
    next
      case (Inr p)
      with a b show ?thesis unfolding step by (cases p) simp
    qed
  qed
qed


lemma trigger_loop_total:
  assumes "ran dev_map \<subseteq> dom cd"
  shows "\<exists>ds. trigger_loop toks f dev_map cd bool_ops ops [] =
            Inr (if even (length toks) then f else \<not> f, ds) \<and> ends_msg \<notin> set ds"
proof (induction toks arbitrary: f)
  case Nil
  then show ?case by simp
next
  case (Cons tok toks)
  show ?case
  proof (cases f)
    case True
    from validate_atom_total [OF assms] obtain ds where
      a: "validate_atom tok dev_map cd ops [] = Inr ds" "ends_msg \<notin> set ds" by blast
    from Cons.IH [of False] obtain ds' where
      b: "trigger_loop toks False dev_map cd bool_ops ops [] =
            Inr (if even (length toks) then False else \<not> False, ds')" "ends_msg \<notin> set ds'"
      by blast
    from True a b show ?thesis
      by (simp add: trigger_loop_frame [of toks False _ _ _ _ ds])
  next
    case False
    from Cons.IH [of True] obtain ds' where
      b: "trigger_loop toks True dev_map cd bool_ops ops [] =
            Inr (if even (length toks) then True else \<not> True, ds')" "ends_msg \<notin> set ds'"
      by blast
    from False b show ?thesis
      by (simp add: err_def trigger_loop_frame [of toks True _ _ _ _ "[_]"] ends_msg_def)
  qed
qed

section \<open>Every match has the shape of an atom\<close>

lemma take_ident_sound:
  "take_ident x = Some (d, r) \<Longrightarrow> x = d @ r \<and> is_ident d"
  by (cases x) (auto simp: is_ident_def list_all_iff split: if_splits dest: set_takeWhileD)

lemma take_op_sound:
  "take_op x = Some (op, r) \<Longrightarrow> x = op @ r \<and> is_cmp_op op"
  by (cases x rule: take_op.cases) (auto simp: is_cmp_op_def split: if_splits)

lemma all_takeWhile: "list_all P (takeWhile P xs)"
  by (induction xs) auto

lemma TRIG_ATOM_RE_match_sound:
  assumes "TRIG_ATOM_RE_match s = Some (dev, attr, op, val)"
  shows "\<exists>ws0 ws1 ws2 ws3.
           s = atom_text ws0 dev attr ws1 op ws2 val ws3
           \<and> list_all is_space ws0 \<and> list_all is_space ws1 \<and> list_all is_space ws2
           \<and> list_all is_space ws3
           \<and> is_ident dev \<and> is_ident attr \<and> is_cmp_op op \<and> val \<noteq> [] \<and> dquote \<notin> set val"
proof -
  from assms obtain r1 where i1: "take_ident (dropWhile is_space s) = Some (dev, r1)"
    by (auto simp: TRIG_ATOM_RE_match_def Let_def split: option.splits list.splits if_splits)
  from assms i1 obtain r2 where r1: "r1 = CHR ''.'' # r2"
    by (auto simp: TRIG_ATOM_RE_match_def Let_def split: option.splits list.splits if_splits)
  from assms i1 r1 obtain r3 where i2: "take_ident r2 = Some (attr, r3)"
    by (auto simp: TRIG_ATOM_RE_match_def Let_def split: option.splits list.splits if_splits)
  from assms i1 r1 i2 obtain r4 where o: "take_op (dropWhile is_space r3) = Some (op, r4)"
    by (auto simp: TRIG_ATOM_RE_match_def Let_def split: option.splits list.splits if_splits)
  from assms i1 r1 i2 o obtain r5 where q: "dropWhile is_space r4 = dquote # r5"
    by (auto simp: TRIG_ATOM_RE_match_def Let_def split: option.splits list.splits if_splits)
  from assms i1 r1 i2 o q have v: "val = takeWhile (\<lambda>x. x \<noteq> dquote) r5" "val \<noteq> []"
    by (auto simp: TRIG_ATOM_RE_match_def Let_def split: option.splits list.splits if_splits)
  from assms i1 r1 i2 o q obtain q2 r7 where
    r6: "dropWhile (\<lambda>x. x \<noteq> dquote) r5 = q2 # r7" "list_all is_space r7"
    by (auto simp: TRIG_ATOM_RE_match_def Let_def split: option.splits list.splits if_splits)
  from r6(1) have q2: "q2 = dquote"
    using hd_dropWhile [of "\<lambda>x. x \<noteq> dquote" r5] by auto
  have a: "dropWhile is_space s = dev @ r1" using take_ident_sound [OF i1] by simp
  have b: "r2 = attr @ r3" using take_ident_sound [OF i2] by simp
  have c: "dropWhile is_space r3 = op @ r4" using take_op_sound [OF o] by simp
  have e: "r5 = val @ dquote # r7" using r6(1) v(1) q2 by (metis takeWhile_dropWhile_id)
  have "s = takeWhile is_space s @ dropWhile is_space s" by simp
  also have "\<dots> = takeWhile is_space s @ dev @ CHR ''.'' # attr @ r3"
    by (simp only: a r1 b)
  also have "\<dots> = takeWhile is_space s @ dev @ CHR ''.'' # attr @ takeWhile is_space r3
                   @ dropWhile is_space r3" by simp
  also have "\<dots> = takeWhile is_space s @ dev @ CHR ''.'' # attr @ takeWhile is_space r3
                   @ op @ r4" by (simp only: c)
  also have "\<dots> = takeWhile is_space s @ dev @ CHR ''.'' # attr @ takeWhile is_space r3
                   @ op @ takeWhile is_space r4 @ dropWhile is_space r4" by simp
  also have "\<dots> = takeWhile is_space s @ dev @ CHR ''.'' # attr @ takeWhile is_space r3
                   @ op @ takeWhile is_space r4 @ dquote # val @ dquote # r7"
    by (simp only: q e)
  finally have "s = atom_text (takeWhile is_space s) dev attr (takeWhile is_space r3) op
                      (takeWhile is_space r4) val r7"
    by (simp add: atom_text_def)
  moreover have "dquote \<notin> set val" using v(1) by (auto dest: set_takeWhileD)
  ultimately show ?thesis
    using take_ident_sound [OF i1] take_ident_sound [OF i2] take_op_sound [OF o] v(2) r6(2)
      all_takeWhile [of is_space]
    by blast
qed

section \<open>An empty atom between two connectives\<close>

lemma strip_atom_text:
  assumes "list_all is_space ws0" "list_all is_space ws3" "is_ident dev"
  shows "strip (atom_text ws0 dev attr ws1 op ws2 val ws3) = atom_text [] dev attr ws1 op ws2 val []"
proof -
  let ?m = "attr @ ws1 @ op @ ws2 @ [dquote] @ val"
  have sh: "atom_text ws0 dev attr ws1 op ws2 val ws3 = ws0 @ (dev @ CHR ''.'' # ?m @ [dquote]) @ ws3"
    "atom_text [] dev attr ws1 op ws2 val [] = dev @ CHR ''.'' # ?m @ [dquote]"
    by (simp_all add: atom_text_def)
  from assms(3) have "\<not> is_space (hd ((dev @ CHR ''.'' # ?m @ [dquote]) @ ws3))"
    by (cases dev) (simp_all add: is_ident_def ident_start_not_space)
  with assms(1) have 1: "dropWhile is_space (ws0 @ (dev @ CHR ''.'' # ?m @ [dquote]) @ ws3) =
      (dev @ CHR ''.'' # ?m @ [dquote]) @ ws3"
    by (intro dropWhile_run) simp_all
  have dq: "\<not> is_space dquote" by (simp add: is_space_def dquote_def)
  have "rev ((dev @ CHR ''.'' # ?m @ [dquote]) @ ws3) = rev ws3 @ dquote # rev (dev @ CHR ''.'' # ?m)"
    by simp
  moreover have "dropWhile is_space (rev ws3 @ dquote # rev (dev @ CHR ''.'' # ?m)) =
      dquote # rev (dev @ CHR ''.'' # ?m)"
    using assms(2) dq by (intro dropWhile_run) (simp_all add: list_all_iff)
  ultimately have 2: "rev (dropWhile is_space (rev ((dev @ CHR ''.'' # ?m @ [dquote]) @ ws3))) =
      dev @ CHR ''.'' # ?m @ [dquote]"
    by simp
  show ?thesis unfolding sh strip_def 1 2 ..
qed

lemma TRIG_ATOM_RE_match_strip:
  assumes "TRIG_ATOM_RE_match s = Some g"
  shows "TRIG_ATOM_RE_match (strip s) = Some g \<and> strip s \<noteq> [] \<and> last s \<noteq> CHR ''&''
     \<and> last s \<noteq> CHR ''|'' \<and> s \<noteq> []"
proof -
  obtain dev attr op val where g: "g = (dev, attr, op, val)" by (cases g)
  from TRIG_ATOM_RE_match_sound [OF assms [unfolded g]] obtain ws0 ws1 ws2 ws3 where
    s: "s = atom_text ws0 dev attr ws1 op ws2 val ws3"
    and w: "list_all is_space ws0" "list_all is_space ws1" "list_all is_space ws2"
      "list_all is_space ws3"
    and r: "is_ident dev" "is_ident attr" "is_cmp_op op" "val \<noteq> []" "dquote \<notin> set val"
    by blast
  have st: "strip s = atom_text [] dev attr ws1 op ws2 val []"
    unfolding s using w(1,4) r(1) by (rule strip_atom_text)
  have m: "TRIG_ATOM_RE_match (strip s) = Some g"
    unfolding st g using w r by (simp add: TRIG_ATOM_RE_match_atom_text)
  have ne: "strip s \<noteq> []" unfolding st by (simp add: atom_text_def)
  have l: "last s = (if ws3 = [] then dquote else last ws3)"
    unfolding s by (simp add: atom_text_def)
  have "\<not> is_space (CHR ''&'')" "\<not> is_space (CHR ''|'')" by (simp_all add: is_space_def)
  with w(4) have "ws3 \<noteq> [] \<Longrightarrow> last ws3 \<noteq> CHR ''&'' \<and> last ws3 \<noteq> CHR ''|''"
    by (metis last_in_set list_all_iff)
  with l have "last s \<noteq> CHR ''&''" "last s \<noteq> CHR ''|''"
    by (auto simp: dquote_def)
  moreover have "s \<noteq> []" unfolding s by (simp add: atom_text_def)
  ultimately show ?thesis using m ne by simp
qed

lemma validate_atom_valid_strip:
  assumes "validate_atom a dev_map cd ops [] = Inr []"
  shows "validate_atom (strip a) dev_map cd ops [] = Inr [] \<and> strip a \<noteq> []
     \<and> last a \<noteq> CHR ''&'' \<and> last a \<noteq> CHR ''|'' \<and> a \<noteq> []"
proof -
  from assms obtain g where m: "TRIG_ATOM_RE_match a = Some g"
    by (cases "TRIG_ATOM_RE_match a") (simp_all add: validate_atom_def err_def)
  note s = TRIG_ATOM_RE_match_strip [OF m]
  from assms m s have "validate_atom (strip a) dev_map cd ops [] = Inr []"
    by (auto simp: validate_atom_def err_def Let_def split: option.splits if_splits prod.splits)
  with s show ?thesis by simp
qed

lemma split_loop_no_conn:
  "\<not> has_conn s \<Longrightarrow> split_loop s buf tokens = (tokens, buf @ s)"
proof (induction s buf tokens rule: split_loop.induct)
  case (1 c1 c2 r buf tokens)
  then have c: "\<not> is_conn c1 c2" "\<not> has_conn (c2 # r)" by simp_all
  from c(1) have c': "\<not> ((c1 = CHR ''&'' \<and> c2 = CHR ''&'') \<or> (c1 = CHR ''|'' \<and> c2 = CHR ''|''))"
    unfolding is_conn_def .
  from 1(2) [OF c' c(2)] c(1) show ?case
    by (simp del: split_loop.simps add: split_loop_step)
qed simp_all

lemma split_loop_conn:
  "\<not> has_conn (s @ [c1]) \<Longrightarrow> is_conn c1 c2 \<Longrightarrow>
     split_loop (s @ c1 # c2 # r) buf tokens = split_loop r [] (tokens @ [strip (buf @ s), [c1, c2]])"
proof (induction s arbitrary: buf)
  case Nil
  then show ?case by (simp del: split_loop.simps add: split_loop_step)
next
  case (Cons x s)
  obtain y t where yt: "s @ [c1] = y # t" by (cases "s @ [c1]") simp_all
  then have yt': "s @ c1 # c2 # r = y # t @ c2 # r"
    by (metis append_Cons append_Nil append_assoc)
  from Cons.prems(1) yt have n: "\<not> is_conn x y" "\<not> has_conn (s @ [c1])" by simp_all
  have "split_loop ((x # s) @ c1 # c2 # r) buf tokens =
          split_loop (s @ c1 # c2 # r) (buf @ [x]) tokens"
    using n(1) by (simp del: split_loop.simps add: split_loop_step yt')
  with Cons.IH [OF n(2) Cons.prems(2), of "buf @ [x]"] show ?case by simp
qed

lemma no_conn_snoc:
  "\<not> has_conn s \<Longrightarrow> s = [] \<or> (last s \<noteq> CHR ''&'' \<and> last s \<noteq> CHR ''|'') \<Longrightarrow> \<not> has_conn (s @ [c])"
proof (cases s rule: rev_cases)
  case Nil
  then show ?thesis by simp
next
  case (snoc xs l)
  assume "\<not> has_conn s" "s = [] \<or> (last s \<noteq> CHR ''&'' \<and> last s \<noteq> CHR ''|'')"
  with snoc show ?thesis
    using has_conn_snoc [of xs l c] by (auto simp: is_conn_def)
qed

lemma spaces_no_conn: "list_all is_space ws \<Longrightarrow> \<not> has_conn (ws @ [c])"
proof (induction ws)
  case Nil
  then show ?case by simp
next
  case (Cons w ws)
  then have "\<not> is_conn w x" for x
    using space_not_connective [of w] by (auto simp: is_conn_def)
  with Cons show ?case by (cases "ws @ [c]") simp_all
qed

text \<open>
  C3 (as stated): on \<^verbatim>\<open>a.b == "x" || || c.d == "y"\<close> the trigger check reports one
  misplaced-operator diagnostic, the tokenizer flushing only a non-empty buffer. The
  source flushes the buffer at every connective, empty or not: the token list holds the
  empty text between the two connectives, the walk takes it for an atom, and the one
  diagnostic is the bad-atom one.
\<close>

theorem scenario_C_not_misplaced_operator:
  \<open>[] \<in> set (split_bool ''a.b == "x" || || c.d == "y"'' [''&&'', ''||''])
   \<and> validate_trigger ''a.b == "x" || || c.d == "y"'' scenario_C_dev_map scenario_C_caps_devices
        [''&&'', ''||''] {''=='', ''!=''} [] = Inr [''Bad trigger atom: '']
   \<and> validate_trigger ''a.b == "x" || || c.d == "y"'' scenario_C_dev_map scenario_C_caps_devices
        [''&&'', ''||''] {''=='', ''!=''} [] \<noteq> Inr [''Expected boolean op between atoms, got: ||'']\<close>
  by code_simp

text \<open>
  C3 (amended): for a trigger \<^verbatim>\<open>atom1 || || atom2\<close> whose two atoms are valid for the
  schema and hold no connective, the tokenizer returns five tokens, the third one the empty
  text between the two connectives, and the trigger check records exactly one diagnostic,
  \<^verbatim>\<open>Bad trigger atom: \<close> with the empty text; both atoms are checked and add nothing.
\<close>

theorem empty_atom_between_connectives:
  assumes valid: "validate_atom a1 dev_map cd ops [] = Inr []"
      "validate_atom a2 dev_map cd ops [] = Inr []"
    and nc: "\<not> has_conn a1" "\<not> has_conn a2"
    and ws: "list_all is_space ws"
    and bo: "''||'' \<in> set bool_ops"
    and e: "expr = a1 @ ''||'' @ ws @ ''||'' @ a2"
  shows "split_bool expr bool_ops = [strip a1, ''||'', [], ''||'', strip a2]
     \<and> validate_trigger expr dev_map cd bool_ops ops ERRS = Inr (ERRS @ [''Bad trigger atom: ''])"
proof -
  note v1 = validate_atom_valid_strip [OF valid(1)]
  note v2 = validate_atom_valid_strip [OF valid(2)]
  have c: "is_conn (CHR ''|'') (CHR ''|'')" by (simp add: is_conn_def)
  have n1: "\<not> has_conn (a1 @ [CHR ''|''])" using nc(1) v1 by (intro no_conn_snoc) simp_all
  have n2: "\<not> has_conn (ws @ [CHR ''|''])" using ws by (rule spaces_no_conn)
  have "split_loop expr [] [] = split_loop (ws @ ''||'' @ a2) [] [strip a1, ''||'']"
    unfolding e using split_loop_conn [OF n1 c, of "ws @ ''||'' @ a2" "[]" "[]"] by simp
  also have "\<dots> = split_loop a2 [] [strip a1, ''||'', strip ws, ''||'']"
    using split_loop_conn [OF n2 c, of a2 "[]" "[strip a1, ''||'']"] by simp
  also have "\<dots> = ([strip a1, ''||'', strip ws, ''||''], a2)"
    using split_loop_no_conn [OF nc(2), of "[]"] by simp
  finally have sl: "split_loop expr [] [] = ([strip a1, ''||'', [], ''||''], a2)"
    using ws by (simp add: strip_spaces list_all_iff)
  then have toks: "split_bool expr bool_ops = [strip a1, ''||'', [], ''||'', strip a2]"
    using v2 by (simp add: split_bool_def)
  have m: "TRIG_ATOM_RE_match [] = None" by (simp add: TRIG_ATOM_RE_match_def)
  have b: "validate_atom [] dev_map cd ops E = Inr (E @ [''Bad trigger atom: ''])" for E
    by (simp add: validate_atom_def m err_def)
  have a: "validate_atom (strip a1) dev_map cd ops E = Inr E"
    "validate_atom (strip a2) dev_map cd ops E = Inr E" for E
    using v1 v2 by (simp_all add: validate_atom_frame [of _ _ _ _ E])
  have "validate_trigger expr dev_map cd bool_ops ops ERRS = Inr (ERRS @ [''Bad trigger atom: ''])"
    using bo by (simp add: validate_trigger_def toks a b)
  with toks show ?thesis by simp
qed

theorem empty_atom_between_connectives_witness:
  \<open>split_bool ''a.b == "x" || || c.d == "y"'' [''&&'', ''||''] =
     [''a.b == "x"'', ''||'', [], ''||'', ''c.d == "y"'']
   \<and> validate_trigger ''a.b == "x" || || c.d == "y"'' scenario_C_dev_map scenario_C_caps_devices
        [''&&'', ''||''] {''=='', ''!=''} [''earlier''] = Inr [''earlier'', ''Bad trigger atom: '']\<close>
proof -
  let ?a1 = \<open>''a.b == "x" ''\<close> and ?a2 = \<open>'' c.d == "y"''\<close>
  have 1: "validate_atom ?a1 scenario_C_dev_map scenario_C_caps_devices {''=='', ''!=''} [] = Inr []"
    "validate_atom ?a2 scenario_C_dev_map scenario_C_caps_devices {''=='', ''!=''} [] = Inr []"
    by code_simp+
  have 2: "\<not> has_conn ?a1" "\<not> has_conn ?a2" by code_simp+
  have 3: "list_all is_space '' ''" "''||'' \<in> set [''&&'', ''||'']" by code_simp+
  have 4: \<open>''a.b == "x" || || c.d == "y"'' = ?a1 @ ''||'' @ '' '' @ ''||'' @ ?a2\<close> by simp
  have 5: \<open>strip ?a1 = ''a.b == "x"''\<close> \<open>strip ?a2 = ''c.d == "y"''\<close> by code_simp+
  from empty_atom_between_connectives [OF 1 2 3 4, of "[''earlier'']"]
  show ?thesis unfolding 5 by simp
qed

section \<open>A trigger that ends with a connective\<close>

text \<open>
  The scan of \<^verbatim>\<open>split_bool\<close> goes from left to right and takes \<^verbatim>\<open>&&\<close> or \<^verbatim>\<open>||\<close> where
  it stands, so in a run of one connective character the connectives are the pairs counted
  from the start of the run. The last token of a text is a connective exactly when the
  text is a prefix that does not end with the character, then a run of an even number of
  that character, then white space only. After a run of odd length the last character of
  the run stays in the buffer and is flushed as an atom token: the text
  \<^verbatim>\<open>a.b == "x" &&&\<close> ends with the characters \<^verbatim>\<open>&&\<close>, its last token is \<^verbatim>\<open>&\<close>, and the
  trigger check records a bad atom and no ends-with-operator diagnostic.
\<close>

lemma strip_empty: "strip s = [] \<Longrightarrow> list_all is_space s"
proof -
  assume "strip s = []"
  then have "dropWhile is_space (rev (dropWhile is_space s)) = []"
    by (simp add: strip_def)
  then have a: "\<forall>x \<in> set (dropWhile is_space s). is_space x"
    by (simp add: dropWhile_eq_Nil_conv)
  have "dropWhile is_space s = []"
  proof (rule ccontr)
    assume n: "dropWhile is_space s \<noteq> []"
    then have "\<not> is_space (hd (dropWhile is_space s))" by (rule hd_dropWhile)
    moreover from n have "hd (dropWhile is_space s) \<in> set (dropWhile is_space s)" by simp
    ultimately show False using a by blast
  qed
  then show ?thesis by (simp add: dropWhile_eq_Nil_conv list_all_iff)
qed

lemma is_conn_same: "is_conn a b \<Longrightarrow> a = b"
  by (auto simp: is_conn_def)

lemma concat_replicate_Suc_snoc:
  "concat (replicate (Suc n) xs) = concat (replicate n xs) @ xs"
  by (induction n) simp_all

lemma split_loop_reach_prefix:
  "pre = [] \<or> last pre \<noteq> c \<Longrightarrow> is_conn c c \<Longrightarrow>
     split_loop (pre @ c # c # r) buf toks =
       (case split_loop pre buf toks of (t, b) \<Rightarrow> split_loop r [] (t @ [strip b, [c, c]]))"
proof (induction pre buf toks rule: split_loop.induct)
  case (1 c1 c2 r' buf toks)
  have b1: "r' = [] \<or> last r' \<noteq> c" using 1(3) by auto
  have b2: "c2 # r' = [] \<or> last (c2 # r') \<noteq> c" using 1(3) by auto
  show ?case
  proof (cases "is_conn c1 c2")
    case True
    then have cc: "(c1 = CHR ''&'' \<and> c2 = CHR ''&'') \<or> (c1 = CHR ''|'' \<and> c2 = CHR ''|'')"
      unfolding is_conn_def .
    from 1(1) [OF cc b1 1(4)] True show ?thesis
      by (simp del: split_loop.simps add: split_loop_step)
  next
    case False
    then have cc: "\<not> ((c1 = CHR ''&'' \<and> c2 = CHR ''&'') \<or> (c1 = CHR ''|'' \<and> c2 = CHR ''|''))"
      unfolding is_conn_def .
    from 1(2) [OF cc b2 1(4)] False show ?thesis
      by (simp del: split_loop.simps add: split_loop_step)
  qed
next
  case (2 x buf toks)
  then have "x \<noteq> c" by simp
  then have "\<not> is_conn x c" by (auto simp: is_conn_def)
  with 2(2) show ?case
    by (simp del: split_loop.simps add: split_loop_step split_loop.simps(2))
next
  case (3 buf toks)
  then show ?case
    by (simp del: split_loop.simps add: split_loop_step split_loop.simps(3))
qed

lemma split_loop_reach:
  assumes "pre = [] \<or> last pre \<noteq> c" and "is_conn c c"
  shows "split_loop ((pre @ concat (replicate n [c, c])) @ c # c # r) buf toks =
       (case split_loop (pre @ concat (replicate n [c, c])) buf toks of
          (t, b) \<Rightarrow> split_loop r [] (t @ [strip b, [c, c]]))"
proof (induction n arbitrary: r)
  case 0
  from split_loop_reach_prefix [OF assms, of r buf toks] show ?case by simp
next
  case (Suc n)
  let ?f = "pre @ concat (replicate n [c, c])"
  obtain t b where tb: "split_loop ?f buf toks = (t, b)" by (cases "split_loop ?f buf toks")
  have f: "pre @ concat (replicate (Suc n) [c, c]) = ?f @ c # c # []"
    unfolding concat_replicate_Suc_snoc by simp
  have 1: "split_loop (?f @ c # c # []) buf toks = (t @ [strip b, [c, c]], [])"
    unfolding Suc.IH [of "[]"] tb by simp
  have g: "(?f @ c # c # []) @ c # c # r = ?f @ c # c # (c # c # r)" by simp
  have 2: "split_loop ((?f @ c # c # []) @ c # c # r) buf toks =
             split_loop r [] ((t @ [strip b, [c, c]]) @ [strip [], [c, c]])"
    unfolding g Suc.IH [of "c # c # r"] tb prod.case
    using assms(2) by (simp del: split_loop.simps add: split_loop_step)
  show ?case unfolding f 1 2 by simp
qed

lemma spaces_no_conn_tail: "list_all is_space ws \<Longrightarrow> \<not> has_conn ws"
  using spaces_no_conn [of ws "CHR ''a''"] has_conn_append [of ws "''a''"] by blast

lemma split_bool_connective_last:
  assumes e: "expr = front @ [c, c] @ tail"
    and f: "front = pre @ concat (replicate n [c, c])"
    and c: "is_conn c c"
    and p: "pre = [] \<or> last pre \<noteq> c"
    and ws: "list_all is_space tail"
  shows "split_bool expr bool_ops =
           (case split_loop front [] [] of (t, b) \<Rightarrow> t @ [strip b, [c, c]])"
proof -
  obtain t b where tb: "split_loop front [] [] = (t, b)" by (cases "split_loop front [] []")
  have "split_loop expr [] [] = split_loop tail [] (t @ [strip b, [c, c]])"
    using split_loop_reach [OF p c, of n tail "[]" "[]"] tb unfolding e f by simp
  also have "\<dots> = (t @ [strip b, [c, c]], tail)"
    using split_loop_no_conn [OF spaces_no_conn_tail [OF ws], of "[]"] by simp
  finally have "split_loop expr [] [] = (t @ [strip b, [c, c]], tail)" .
  moreover have "strip tail = []" using ws by (simp add: strip_spaces list_all_iff)
  ultimately show ?thesis by (simp add: split_bool_def tb)
qed

lemma split_loop_no_token:
  "fst (split_loop s buf toks) = toks \<Longrightarrow> snd (split_loop s buf toks) = buf @ s"
proof (induction s buf toks rule: split_loop.induct)
  case (1 c1 c2 r buf toks)
  show ?case
  proof (cases "is_conn c1 c2")
    case True
    from split_loop_tokens [of r "[]" "toks @ [strip buf, [c1, c2]]"] obtain ps where
      "fst (split_loop r [] (toks @ [strip buf, [c1, c2]])) = (toks @ [strip buf, [c1, c2]]) @ ps"
      by blast
    with True 1(3) have False
      by (simp del: split_loop.simps add: split_loop_step)
    then show ?thesis ..
  next
    case False
    then have cc: "\<not> ((c1 = CHR ''&'' \<and> c2 = CHR ''&'') \<or> (c1 = CHR ''|'' \<and> c2 = CHR ''|''))"
      unfolding is_conn_def .
    from 1(3) False have "fst (split_loop (c2 # r) (buf @ [c1]) toks) = toks"
      by (simp del: split_loop.simps add: split_loop_step)
    from 1(2) [OF cc this] False show ?thesis
      by (simp del: split_loop.simps add: split_loop_step)
  qed
qed simp_all

lemma split_loop_shape:
  "split_loop s buf toks = (T, B) \<Longrightarrow> list_all is_space B \<Longrightarrow> T \<noteq> toks \<Longrightarrow>
     \<exists>pre c n tail. s = pre @ concat (replicate (Suc n) [c, c]) @ tail \<and> is_conn c c
        \<and> (pre = [] \<or> last pre \<noteq> c) \<and> list_all is_space tail"
proof (induction s buf toks rule: split_loop.induct)
  case (1 c1 c2 r buf toks)
  show ?case
  proof (cases "is_conn c1 c2")
    case True
    then have cc: "(c1 = CHR ''&'' \<and> c2 = CHR ''&'') \<or> (c1 = CHR ''|'' \<and> c2 = CHR ''|'')"
      unfolding is_conn_def .
    have eq: "c2 = c1" using is_conn_same [OF True] by simp
    from True eq have c11: "is_conn c1 c1" by simp
    from 1(3) True have sl: "split_loop r [] (toks @ [strip buf, [c1, c2]]) = (T, B)"
      by (simp del: split_loop.simps add: split_loop_step)
    show ?thesis
    proof (cases "T = toks @ [strip buf, [c1, c2]]")
      case True
      with sl split_loop_no_token [of r "[]" "toks @ [strip buf, [c1, c2]]"] have "B = r" by simp
      with 1(4) have "list_all is_space r" by simp
      with c11 eq show ?thesis
        by (intro exI [of _ "[]"] exI [of _ c1] exI [of _ "0::nat"] exI [of _ r]) simp
    next
      case False
      from 1(1) [OF cc sl 1(4) False] obtain pre c n tail where
        r: "r = pre @ concat (replicate (Suc n) [c, c]) @ tail" "is_conn c c"
          "pre = [] \<or> last pre \<noteq> c" "list_all is_space tail" by blast
      show ?thesis
      proof (cases "pre = [] \<and> c = c1")
        case True
        with r eq c11 show ?thesis
          by (intro exI [of _ "[]"] exI [of _ c1] exI [of _ "Suc n"] exI [of _ tail]) simp
      next
        case False
        with r(3) have "c1 # c1 # pre = [] \<or> last (c1 # c1 # pre) \<noteq> c" by auto
        with r eq show ?thesis
          by (intro exI [of _ "c1 # c1 # pre"] exI [of _ c] exI [of _ n] exI [of _ tail]) simp
      qed
    qed
  next
    case False
    then have cc: "\<not> ((c1 = CHR ''&'' \<and> c2 = CHR ''&'') \<or> (c1 = CHR ''|'' \<and> c2 = CHR ''|''))"
      unfolding is_conn_def .
    from 1(3) False have sl: "split_loop (c2 # r) (buf @ [c1]) toks = (T, B)"
      by (simp del: split_loop.simps add: split_loop_step)
    from 1(2) [OF cc sl 1(4) 1(5)] obtain pre c n tail where
      r: "c2 # r = pre @ concat (replicate (Suc n) [c, c]) @ tail" "is_conn c c"
        "pre = [] \<or> last pre \<noteq> c" "list_all is_space tail" by blast
    have "c1 # pre = [] \<or> last (c1 # pre) \<noteq> c"
    proof (cases "pre = []")
      case True
      with r(1) have "c2 = c" by simp
      with False r(2) have "c1 \<noteq> c" by (auto simp: is_conn_def)
      with True show ?thesis by simp
    next
      case False
      with r(3) show ?thesis by simp
    qed
    with r show ?thesis
      by (intro exI [of _ "c1 # pre"] exI [of _ c] exI [of _ n] exI [of _ tail]) simp
  qed
qed simp_all

lemma last_token_connective_iff:
  "(split_bool expr bool_ops \<noteq> [] \<and> last (split_bool expr bool_ops) \<in> {''&&'', ''||''}) =
     (\<exists>pre c n tail. expr = pre @ concat (replicate (Suc n) [c, c]) @ tail \<and> is_conn c c
        \<and> (pre = [] \<or> last pre \<noteq> c) \<and> list_all is_space tail)"
proof
  assume a: "split_bool expr bool_ops \<noteq> [] \<and> last (split_bool expr bool_ops) \<in> {''&&'', ''||''}"
  obtain T B where sl: "split_loop expr [] [] = (T, B)" by (cases "split_loop expr [] []")
  have "\<not> has_conn ([] @ take 1 expr)" by (cases expr) simp_all
  from split_loop_buf [OF this, of "[]"] sl have "\<not> has_conn B" by simp
  then have nc: "\<not> has_conn (strip B)" by (rule strip_no_conn)
  have sb: "strip B = []"
  proof (rule ccontr)
    assume n: "strip B \<noteq> []"
    with sl have "last (split_bool expr bool_ops) = strip B" by (simp add: split_bool_def)
    with a have "has_conn (strip B)" by (auto simp: is_conn_def)
    with nc show False by simp
  qed
  then have ws: "list_all is_space B" by (rule strip_empty)
  from sb sl a have "T \<noteq> []" by (simp add: split_bool_def)
  from split_loop_shape [OF sl ws this]
  show "\<exists>pre c n tail. expr = pre @ concat (replicate (Suc n) [c, c]) @ tail \<and> is_conn c c
        \<and> (pre = [] \<or> last pre \<noteq> c) \<and> list_all is_space tail" .
next
  assume "\<exists>pre c n tail. expr = pre @ concat (replicate (Suc n) [c, c]) @ tail \<and> is_conn c c
        \<and> (pre = [] \<or> last pre \<noteq> c) \<and> list_all is_space tail"
  then obtain pre c n tail where
    r: "expr = pre @ concat (replicate (Suc n) [c, c]) @ tail" "is_conn c c"
      "pre = [] \<or> last pre \<noteq> c" "list_all is_space tail" by blast
  have e: "expr = (pre @ concat (replicate n [c, c])) @ [c, c] @ tail"
    unfolding r(1) concat_replicate_Suc_snoc by simp
  obtain t b where tb: "split_loop (pre @ concat (replicate n [c, c])) [] [] = (t, b)"
    by (cases "split_loop (pre @ concat (replicate n [c, c])) [] []")
  from split_bool_connective_last [OF e refl r(2) r(3) r(4), of bool_ops] tb
  have "split_bool expr bool_ops = t @ [strip b, [c, c]]" by simp
  with r(2) show "split_bool expr bool_ops \<noteq> [] \<and> last (split_bool expr bool_ops) \<in> {''&&'', ''||''}"
    by (auto simp: is_conn_def)
qed

lemma three_connective_characters:
  \<open>split_bool ''a.b == "x" &&&'' [''&&'', ''||''] = [''a.b == "x"'', ''&&'', ''&'']
   \<and> validate_trigger ''a.b == "x" &&&'' scenario_C_dev_map scenario_C_caps_devices
        [''&&'', ''||''] {''=='', ''!=''} [] = Inr [''Bad trigger atom: &'']\<close>
  by code_simp



section \<open>Every check appends to the list it is given\<close>

lemma missing_keys_loop_frame:
  "missing_keys_loop ks p ERRS = ERRS @ missing_keys_loop ks p []"
proof (induction ks arbitrary: ERRS)
  case Nil
  then show ?case by simp
next
  case (Cons k ks)
  obtain key present where k: "k = (key, present)" by (cases k)
  define dx where "dx = (if present then [] else [p @ key])"
  have step: "missing_keys_loop (k # ks) p E = missing_keys_loop ks p (E @ dx)" for E
    by (simp add: k err_def dx_def)
  have a: "missing_keys_loop (k # ks) p E = E @ dx @ missing_keys_loop ks p []" for E
    unfolding step Cons.IH [of "E @ dx"] by simp
  show ?case unfolding a [of ERRS] a [of "[]"] by simp
qed

lemma required_loop_frame:
  "required_loop ms dev_map ERRS = ERRS @ required_loop ms dev_map []"
proof (induction ms arbitrary: ERRS)
  case Nil
  then show ?case by simp
next
  case (Cons m ms)
  define dx where "dx = (if dev_map m = None then [''Required device missing: '' @ m] else [])"
  have step: "required_loop (m # ms) dev_map E = required_loop ms dev_map (E @ dx)" for E
    by (simp add: err_def dx_def)
  have a: "required_loop (m # ms) dev_map E = E @ dx @ required_loop ms dev_map []" for E
    unfolding step Cons.IH [of "E @ dx"] by simp
  show ?case unfolding a [of ERRS] a [of "[]"] by simp
qed

lemma devices_loop_Cons:
  "devices_loop (d # ds) cd dev_map ERRS =
     (case devices_loop [d] cd dev_map [] of
        (dm1, ds1) \<Rightarrow> devices_loop ds cd dm1 (ERRS @ ds1))"
  by (auto simp: err_def Let_def split: option.splits)

lemma devices_loop_frame:
  "devices_loop ds cd dev_map ERRS =
     (fst (devices_loop ds cd dev_map []), ERRS @ snd (devices_loop ds cd dev_map []))"
proof (induction ds arbitrary: dev_map ERRS)
  case Nil
  then show ?case by simp
next
  case (Cons d ds)
  obtain dm1 ds1 where s: "devices_loop [d] cd dev_map [] = (dm1, ds1)"
    by (cases "devices_loop [d] cd dev_map []")
  have a: "devices_loop (d # ds) cd dev_map E =
      (fst (devices_loop ds cd dm1 []), E @ ds1 @ snd (devices_loop ds cd dm1 []))" for E
    unfolding devices_loop_Cons [of d ds] s prod.case Cons.IH [of dm1 "E @ ds1"] by simp
  show ?case unfolding a [of ERRS] a [of "[]"] by simp
qed

lemma validate_devices_frame:
  "validate_devices sp caps ERRS =
     (fst (validate_devices sp caps []), ERRS @ snd (validate_devices sp caps []))"
proof (cases "sp_devices sp")
  case (Items ds)
  define cd where "cd = (case caps_devices caps of None \<Rightarrow> Map.empty | Some m \<Rightarrow> m)"
  define dm where "dm = fst (devices_loop ds cd Map.empty [])"
  define d1 where "d1 = snd (devices_loop ds cd Map.empty [])"
  have a: "validate_devices sp caps E =
      ((dm, cd), E @ d1 @ required_loop [''presenceSensor'', ''motionSensor'', ''switch''] dm [])" for E
    unfolding validate_devices_def Items jfield.case Let_def cd_def [symmetric]
      devices_loop_frame [of ds cd Map.empty E] dm_def [symmetric] d1_def [symmetric] prod.case
      required_loop_frame [of _ dm "E @ d1"]
    by simp
  show ?thesis unfolding a [of ERRS] a [of "[]"] by simp
qed (simp_all add: validate_devices_def err_def)

lemma validate_action_frame:
  "validate_action act dev_map cd ERRS = app_errs ERRS (validate_action act dev_map cd [])"
  by (simp add: validate_action_def err_def split: option.splits prod.splits)

lemma validate_trigger_frame:
  "validate_trigger expr dev_map cd bool_ops ops ERRS =
     app_errs ERRS (validate_trigger expr dev_map cd bool_ops ops [])"
proof -
  let ?r = "trigger_loop (split_bool expr bool_ops) True dev_map cd bool_ops ops []"
  show ?thesis
  proof (cases ?r)
    case (Inl e)
    then show ?thesis
      unfolding validate_trigger_def Let_def
        trigger_loop_frame [of "split_bool expr bool_ops" True dev_map cd bool_ops ops ERRS]
      by simp
  next
    case (Inr p)
    obtain f ds where p: "p = (f, ds)" by (cases p)
    show ?thesis
      unfolding validate_trigger_def Let_def
        trigger_loop_frame [of "split_bool expr bool_ops" True dev_map cd bool_ops ops ERRS]
        Inr p
      by (simp add: err_def)
  qed
qed

lemma invariants_loop_Cons:
  "invariants_loop (iv # ivs) sid dev_map cd ops ERRS =
     (case invariants_loop [iv] sid dev_map cd ops [] of
        Inl e \<Rightarrow> Inl e
      | Inr d \<Rightarrow> invariants_loop ivs sid dev_map cd ops (ERRS @ d))"
  by (auto simp: err_def Let_def split: option.splits)

lemma invariants_loop_frame:
  "invariants_loop ivs sid dev_map cd ops ERRS =
     app_errs ERRS (invariants_loop ivs sid dev_map cd ops [])"
proof (induction ivs arbitrary: ERRS)
  case Nil
  then show ?case by simp
next
  case (Cons iv ivs)
  show ?case
  proof (cases "invariants_loop [iv] sid dev_map cd ops []")
    case (Inl e)
    then show ?thesis
      unfolding invariants_loop_Cons [of iv ivs] by simp
  next
    case (Inr d)
    have a: "invariants_loop (iv # ivs) sid dev_map cd ops E =
        app_errs (E @ d) (invariants_loop ivs sid dev_map cd ops [])" for E
      unfolding invariants_loop_Cons [of iv ivs] Inr sum.case
      by (rule Cons.IH)
    show ?thesis unfolding a [of ERRS] a [of "[]"] by (simp add: app_errs_assoc)
  qed
qed

lemma invariants_loop_append:
  "invariants_loop (xs @ ys) sid dev_map cd ops ERRS =
     (case invariants_loop xs sid dev_map cd ops ERRS of
        Inl e \<Rightarrow> Inl e
      | Inr E \<Rightarrow> invariants_loop ys sid dev_map cd ops E)"
proof (induction xs arbitrary: ERRS)
  case Nil
  then show ?case by simp
next
  case (Cons x xs)
  show ?case
  proof (cases "invariants_loop [x] sid dev_map cd ops []")
    case (Inl e)
    then show ?thesis
      unfolding append_Cons invariants_loop_Cons [of x "xs @ ys"] invariants_loop_Cons [of x xs]
      by simp
  next
    case (Inr d)
    then show ?thesis
      unfolding append_Cons invariants_loop_Cons [of x "xs @ ys"] invariants_loop_Cons [of x xs]
      by (simp add: Cons.IH)
  qed
qed

lemma states_loop_Cons:
  "states_loop (st # sts) dev_map cd ops state_ids ERRS =
     (case states_loop [st] dev_map cd ops state_ids [] of
        Inl e \<Rightarrow> Inl e
      | Inr (ids1, d) \<Rightarrow> states_loop sts dev_map cd ops ids1 (ERRS @ d))"
proof (cases "st_id st")
  case None
  then show ?thesis by (simp add: err_def)
next
  case (Some sid)
  define dup where "dup = (if sid \<in> state_ids then [''Duplicate state id: '' @ sid] else [])"
  have e1: "(if sid \<in> state_ids then err (''Duplicate state id: '' @ sid) E else E) = E @ dup" for E
    by (simp add: dup_def err_def)
  show ?thesis
  proof (cases "st_invariants st")
    case Absent
    with Some show ?thesis by (simp add: e1 Let_def)
  next
    case NotList
    with Some show ?thesis by (simp add: e1 Let_def err_def)
  next
    case (Items invs)
    show ?thesis
    proof (cases "invariants_loop invs sid dev_map cd ops []")
      case (Inl e)
      with Some Items show ?thesis
        by (simp add: e1 Let_def invariants_loop_frame [of invs sid dev_map cd ops "ERRS @ dup"]
            invariants_loop_frame [of invs sid dev_map cd ops dup])
    next
      case (Inr d)
      with Some Items show ?thesis
        by (simp add: e1 Let_def invariants_loop_frame [of invs sid dev_map cd ops "ERRS @ dup"]
            invariants_loop_frame [of invs sid dev_map cd ops dup])
    qed
  qed
qed

lemma states_loop_frame:
  "states_loop sts dev_map cd ops state_ids ERRS =
     (case states_loop sts dev_map cd ops state_ids [] of
        Inl e \<Rightarrow> Inl e
      | Inr (ids1, ds) \<Rightarrow> Inr (ids1, ERRS @ ds))"
proof (induction sts arbitrary: state_ids ERRS)
  case Nil
  then show ?case by simp
next
  case (Cons st sts)
  show ?case
  proof (cases "states_loop [st] dev_map cd ops state_ids []")
    case (Inl e)
    then show ?thesis unfolding states_loop_Cons [of st sts] by simp
  next
    case (Inr p)
    obtain ids1 d where p: "p = (ids1, d)" by (cases p)
    have a: "states_loop (st # sts) dev_map cd ops state_ids E =
        (case states_loop sts dev_map cd ops ids1 [] of
           Inl e \<Rightarrow> Inl e | Inr (ids2, ds) \<Rightarrow> Inr (ids2, (E @ d) @ ds))" for E
      unfolding states_loop_Cons [of st sts] Inr p sum.case prod.case
      by (rule Cons.IH)
    show ?thesis unfolding a [of ERRS] a [of "[]"]
      by (simp split: sum.splits)
  qed
qed

lemma states_loop_append:
  "states_loop (xs @ ys) dev_map cd ops state_ids ERRS =
     (case states_loop xs dev_map cd ops state_ids ERRS of
        Inl e \<Rightarrow> Inl e
      | Inr (ids1, E) \<Rightarrow> states_loop ys dev_map cd ops ids1 E)"
proof (induction xs arbitrary: state_ids ERRS)
  case Nil
  then show ?case by simp
next
  case (Cons x xs)
  show ?case
    unfolding append_Cons states_loop_Cons [of x "xs @ ys"] states_loop_Cons [of x xs]
    by (simp add: Cons.IH split: sum.splits)
qed

lemma transitions_loop_Cons:
  "transitions_loop (tr # trs) i state_ids dev_map cd bool_ops ops ERRS =
     (case transitions_loop [tr] i state_ids dev_map cd bool_ops ops [] of
        Inl e \<Rightarrow> Inl e
      | Inr d \<Rightarrow> transitions_loop trs (i + 1) state_ids dev_map cd bool_ops ops (ERRS @ d))"
proof -
  define mk where "mk = missing_keys_loop
                 [(''source'', tr_source tr \<noteq> None), (''target'', tr_target tr \<noteq> None),
                  (''trigger'', tr_trigger tr \<noteq> None), (''action'', tr_action tr \<noteq> None)]
                 (''Transition '' @ str_nat i @ '' missing '')"
  define us where "us = (if (case tr_source tr of None \<Rightarrow> True | Some s \<Rightarrow> s \<notin> state_ids)
                then [''Transition '' @ str_nat i @ '' unknown source: '' @ str_opt (tr_source tr)]
                else [])"
  define ut where "ut = (if (case tr_target tr of None \<Rightarrow> True | Some t \<Rightarrow> t \<notin> state_ids)
                then [''Transition '' @ str_nat i @ '' unknown target: '' @ str_opt (tr_target tr)]
                else [])"
  define vt where "vt = validate_trigger (case tr_trigger tr of None \<Rightarrow> [] | Some t \<Rightarrow> t)
                dev_map cd bool_ops ops []"
  define va where "va = validate_action (case tr_action tr of None \<Rightarrow> [] | Some a \<Rightarrow> a) dev_map cd []"
  have step: "transitions_loop (tr # trs') i state_ids dev_map cd bool_ops ops E =
      (case vt of Inl e \<Rightarrow> Inl e
       | Inr d1 \<Rightarrow> (case va of Inl e \<Rightarrow> Inl e
          | Inr d2 \<Rightarrow> transitions_loop trs' (i + 1) state_ids dev_map cd bool_ops ops
                        (E @ mk [] @ us @ ut @ d1 @ d2)))" for E trs'
  proof -
    have e1: "mk E = E @ mk []" for E
      unfolding mk_def by (rule missing_keys_loop_frame)
    have e2: "(if (case tr_source tr of None \<Rightarrow> True | Some s \<Rightarrow> s \<notin> state_ids)
                then err (''Transition '' @ str_nat i @ '' unknown source: '' @ str_opt (tr_source tr)) E'
                else E') = E' @ us" for E'
      by (simp add: us_def err_def)
    have e3: "(if (case tr_target tr of None \<Rightarrow> True | Some t \<Rightarrow> t \<notin> state_ids)
                then err (''Transition '' @ str_nat i @ '' unknown target: '' @ str_opt (tr_target tr)) E'
                else E') = E' @ ut" for E'
      by (simp add: ut_def err_def)
    have e4: "validate_trigger (case tr_trigger tr of None \<Rightarrow> [] | Some t \<Rightarrow> t)
                dev_map cd bool_ops ops E' = app_errs E' vt" for E'
      unfolding vt_def by (rule validate_trigger_frame)
    have e5: "validate_action (case tr_action tr of None \<Rightarrow> [] | Some a \<Rightarrow> a) dev_map cd E'
                = app_errs E' va" for E'
      unfolding va_def by (rule validate_action_frame)
    show ?thesis
      unfolding transitions_loop.simps Let_def mk_def [symmetric] e1 [of E] e2 e3 e4 e5
      by (cases vt; cases va) simp_all
  qed
  show ?thesis
    unfolding step [of trs ERRS] step [of "[]" "[]"]
    by (cases vt; cases va) simp_all
qed

lemma transitions_loop_frame:
  "transitions_loop trs i state_ids dev_map cd bool_ops ops ERRS =
     app_errs ERRS (transitions_loop trs i state_ids dev_map cd bool_ops ops [])"
proof (induction trs arbitrary: i ERRS)
  case Nil
  then show ?case by simp
next
  case (Cons tr trs)
  show ?case
  proof (cases "transitions_loop [tr] i state_ids dev_map cd bool_ops ops []")
    case (Inl e)
    then show ?thesis unfolding transitions_loop_Cons [of tr trs] by simp
  next
    case (Inr d)
    have a: "transitions_loop (tr # trs) i state_ids dev_map cd bool_ops ops E =
        app_errs (E @ d) (transitions_loop trs (i + 1) state_ids dev_map cd bool_ops ops [])" for E
      unfolding transitions_loop_Cons [of tr trs] Inr sum.case
      by (rule Cons.IH)
    show ?thesis unfolding a [of ERRS] a [of "[]"] by (simp add: app_errs_assoc)
  qed
qed

lemma transitions_loop_append:
  "transitions_loop (xs @ ys) i state_ids dev_map cd bool_ops ops ERRS =
     (case transitions_loop xs i state_ids dev_map cd bool_ops ops ERRS of
        Inl e \<Rightarrow> Inl e
      | Inr E \<Rightarrow> transitions_loop ys (i + length xs) state_ids dev_map cd bool_ops ops E)"
proof (induction xs arbitrary: i ERRS)
  case Nil
  then show ?case by simp
next
  case (Cons x xs)
  show ?case
    unfolding append_Cons transitions_loop_Cons [of x "xs @ ys"] transitions_loop_Cons [of x xs]
    by (simp add: Cons.IH split: sum.splits)
qed

lemma validate_groups:
  "validate sp caps ERRS =
     (case states_result sp caps of
        Inl e \<Rightarrow> Inl e
      | Inr (state_ids, sd) \<Rightarrow>
          app_errs (ERRS @ key_diags sp @ device_diags sp caps @ sd)
            (transition_diags sp caps state_ids))"
proof -
  obtain dev_map cd where vd: "fst (validate_devices sp caps []) = (dev_map, cd)"
    by (cases "fst (validate_devices sp caps [])")
  define E2 where "E2 = ERRS @ key_diags sp @ device_diags sp caps"
  have k: "missing_keys_loop
       [(''bundle_name'', sp_bundle_name sp \<noteq> None), (''devices'', is_present (sp_devices sp)),
        (''states'', is_present (sp_states sp)),
        (''transitions'', is_present (sp_transitions sp)), (''notes'', sp_has_notes sp)]
       ''Missing key: '' ERRS = ERRS @ key_diags sp"
    unfolding key_diags_def by (rule missing_keys_loop_frame)
  have d: "validate_devices sp caps (ERRS @ key_diags sp) = ((dev_map, cd), E2)"
    unfolding validate_devices_frame [of sp caps "ERRS @ key_diags sp"] vd E2_def device_diags_def
    by simp
  have v: "validate sp caps ERRS =
      (case (case sp_states sp of
               Items sts \<Rightarrow> states_loop sts dev_map cd (schema_ops caps) {} E2
             | _ \<Rightarrow> Inr ({}, E2)) of
         Inl e \<Rightarrow> Inl e
       | Inr (state_ids, E3) \<Rightarrow>
           (case sp_transitions sp of
              Items trs \<Rightarrow> transitions_loop trs 1 state_ids dev_map cd (schema_bool_ops caps)
                             (schema_ops caps) E3
            | _ \<Rightarrow> Inr E3))"
    unfolding validate_def Let_def k d prod.case schema_ops_def schema_bool_ops_def ..
  have s: "(case sp_states sp of
               Items sts \<Rightarrow> states_loop sts dev_map cd (schema_ops caps) {} E2
             | _ \<Rightarrow> Inr ({}, E2)) =
      (case states_result sp caps of Inl e \<Rightarrow> Inl e | Inr (ids, sd) \<Rightarrow> Inr (ids, E2 @ sd))"
    unfolding states_result_def vd prod.case
    by (cases "sp_states sp") (simp_all add: states_loop_frame [of _ dev_map cd _ "{}" E2])
  have t: "(case sp_transitions sp of
              Items trs \<Rightarrow> transitions_loop trs 1 ids dev_map cd (schema_bool_ops caps)
                             (schema_ops caps) E3
            | _ \<Rightarrow> Inr E3) = app_errs E3 (transition_diags sp caps ids)" for ids E3
    unfolding transition_diags_def vd prod.case
    by (cases "sp_transitions sp")
      (simp_all add: transitions_loop_frame [of _ _ ids dev_map cd _ _ E3])
  show ?thesis
    unfolding v s t
    by (cases "states_result sp caps") (simp_all add: split_beta E2_def)
qed

lemma validate_frame:
  "validate sp caps ERRS = app_errs ERRS (validate sp caps [])"
  unfolding validate_groups [of sp caps ERRS] validate_groups [of sp caps "[]"]
  by (cases "states_result sp caps")
    (simp_all add: split_beta app_errs_assoc)

lemma devices_loop_append:
  "devices_loop (xs @ ys) cd dev_map ERRS =
     (case devices_loop xs cd dev_map ERRS of (dm1, E1) \<Rightarrow> devices_loop ys cd dm1 E1)"
proof (induction xs arbitrary: dev_map ERRS)
  case Nil
  then show ?case by simp
next
  case (Cons x xs)
  show ?case
    unfolding append_Cons devices_loop_Cons [of x "xs @ ys"] devices_loop_Cons [of x xs]
    by (simp add: Cons.IH split: prod.splits)
qed

section \<open>The list of diagnostics across runs\<close>

text \<open>
  C5 (as stated): the list of diagnostics is local to a validation call, so that a second
  validation in the same process reports the diagnostics of its bundle alone. The list is
  the module's \<^verbatim>\<open>ERRS\<close> and nothing empties it: the second run of Scenario A starts from
  the three diagnostics of the first and returns six.
\<close>

theorem second_run_repeats_first:
  "validate scenario_A scenario_caps [] =
     Inr [''Required device missing: presenceSensor'',
          ''Required device missing: motionSensor'',
          ''Required device missing: switch'']
   \<and> validate scenario_A scenario_caps
        [''Required device missing: presenceSensor'',
         ''Required device missing: motionSensor'',
         ''Required device missing: switch''] =
     Inr [''Required device missing: presenceSensor'',
          ''Required device missing: motionSensor'',
          ''Required device missing: switch'',
          ''Required device missing: presenceSensor'',
          ''Required device missing: motionSensor'',
          ''Required device missing: switch'']"
  by code_simp

text \<open>
  C5 (amended): the list of diagnostics is the one list of the module, never emptied. A
  validation appends the diagnostics of its bundle to the list as it is at the call; what
  it reports is that list followed by its own diagnostics, so it reports the diagnostics of
  the bundle alone exactly when the list is empty at the call, as it is at the first
  validation of a process.
\<close>

theorem validation_appends_to_ERRS:
  "validate sp caps ERRS = app_errs ERRS (validate sp caps [])
   \<and> main sp caps ERRS =
       (case validate sp caps [] of Inl e \<Rightarrow> Inl e | Inr ds \<Rightarrow> Inr (report (ERRS @ ds)))"
proof -
  have "validate sp caps ERRS = app_errs ERRS (validate sp caps [])"
    by (rule validate_frame)
  then show ?thesis
    by (cases "validate sp caps []") (simp_all add: main_def)
qed

section \<open>The diagnostics of each check\<close>

text \<open>
  The diagnostics of each check from an empty list, in the order in which the source
  records them, and those of a list of devices, states, invariants or transitions as
  those of a first part of the list followed by those of the rest.
\<close>

lemma key_diags_explicit:
  "key_diags sp =
     (if sp_bundle_name sp = None then [''Missing key: bundle_name''] else [])
     @ (if sp_devices sp = Absent then [''Missing key: devices''] else [])
     @ (if sp_states sp = Absent then [''Missing key: states''] else [])
     @ (if sp_transitions sp = Absent then [''Missing key: transitions''] else [])
     @ (if sp_has_notes sp then [] else [''Missing key: notes''])"
  by (simp add: key_diags_def is_present_def err_def)

lemma validate_devices_explicit:
  "validate_devices sp caps [] =
     (case sp_devices sp of
        Items ds \<Rightarrow>
          (case devices_loop ds (case caps_devices caps of None \<Rightarrow> Map.empty | Some m \<Rightarrow> m)
                  Map.empty [] of
             (dev_map, dd) \<Rightarrow>
               ((dev_map, case caps_devices caps of None \<Rightarrow> Map.empty | Some m \<Rightarrow> m),
                dd
                @ (if dev_map ''presenceSensor'' = None
                   then [''Required device missing: presenceSensor''] else [])
                @ (if dev_map ''motionSensor'' = None
                   then [''Required device missing: motionSensor''] else [])
                @ (if dev_map ''switch'' = None
                   then [''Required device missing: switch''] else [])))
      | _ \<Rightarrow> ((Map.empty, Map.empty), [''Missing devices[]'']))"
proof (cases "sp_devices sp")
  case (Items ds)
  define cd where "cd = (case caps_devices caps of None \<Rightarrow> Map.empty | Some m \<Rightarrow> m)"
  obtain dm dd where r: "devices_loop ds cd Map.empty [] = (dm, dd)"
    by (cases "devices_loop ds cd Map.empty []")
  show ?thesis
    unfolding validate_devices_def Items jfield.case Let_def cd_def [symmetric] r prod.case
    by (simp add: err_def)
qed (simp_all add: validate_devices_def err_def)

lemma states_loop_single:
  "states_loop [st] dev_map cd ops ids [] =
     (case st_id st of
        None \<Rightarrow> Inr (ids, [''State missing id: '' @ st_repr st])
      | Some sid \<Rightarrow>
          (case st_invariants st of
             NotList \<Rightarrow>
               Inr (insert sid ids,
                    (if sid \<in> ids then [''Duplicate state id: '' @ sid] else [])
                    @ [''State '' @ sid @ '' invariants must be list''])
           | Absent \<Rightarrow>
               Inr (insert sid ids, if sid \<in> ids then [''Duplicate state id: '' @ sid] else [])
           | Items invs \<Rightarrow>
               (case invariants_loop invs sid dev_map cd ops [] of
                  Inl e \<Rightarrow> Inl e
                | Inr d \<Rightarrow>
                    Inr (insert sid ids,
                         (if sid \<in> ids then [''Duplicate state id: '' @ sid] else []) @ d))))"
proof (cases "st_id st")
  case None
  then show ?thesis by (simp add: err_def)
next
  case (Some sid)
  define dup where "dup = (if sid \<in> ids then [''Duplicate state id: '' @ sid] else [])"
  have e1: "(if sid \<in> ids then err (''Duplicate state id: '' @ sid) [] else []) = dup"
    by (simp add: dup_def err_def)
  show ?thesis
  proof (cases "st_invariants st")
    case Absent
    with Some show ?thesis by (simp add: e1 Let_def dup_def [symmetric])
  next
    case NotList
    with Some show ?thesis by (simp add: e1 Let_def err_def dup_def [symmetric])
  next
    case (Items invs)
    with Some show ?thesis
      by (cases "invariants_loop invs sid dev_map cd ops []")
        (simp_all add: e1 Let_def dup_def [symmetric]
          invariants_loop_frame [of invs sid dev_map cd ops dup])
  qed
qed

lemma transitions_loop_single:
  "transitions_loop [tr] i ids dev_map cd bool_ops ops [] =
     (case validate_trigger (case tr_trigger tr of None \<Rightarrow> [] | Some t \<Rightarrow> t)
             dev_map cd bool_ops ops [] of
        Inl e \<Rightarrow> Inl e
      | Inr td \<Rightarrow>
          (case validate_action (case tr_action tr of None \<Rightarrow> [] | Some a \<Rightarrow> a) dev_map cd [] of
             Inl e \<Rightarrow> Inl e
           | Inr ad \<Rightarrow>
               Inr ((if tr_source tr = None then [''Transition '' @ str_nat i @ '' missing source''] else [])
                    @ (if tr_target tr = None then [''Transition '' @ str_nat i @ '' missing target''] else [])
                    @ (if tr_trigger tr = None then [''Transition '' @ str_nat i @ '' missing trigger''] else [])
                    @ (if tr_action tr = None then [''Transition '' @ str_nat i @ '' missing action''] else [])
                    @ (if (case tr_source tr of None \<Rightarrow> True | Some s \<Rightarrow> s \<notin> ids)
                       then [''Transition '' @ str_nat i @ '' unknown source: '' @ str_opt (tr_source tr)]
                       else [])
                    @ (if (case tr_target tr of None \<Rightarrow> True | Some t \<Rightarrow> t \<notin> ids)
                       then [''Transition '' @ str_nat i @ '' unknown target: '' @ str_opt (tr_target tr)]
                       else [])
                    @ td @ ad)))"
proof -
  define mk where "mk = missing_keys_loop
                 [(''source'', tr_source tr \<noteq> None), (''target'', tr_target tr \<noteq> None),
                  (''trigger'', tr_trigger tr \<noteq> None), (''action'', tr_action tr \<noteq> None)]
                 (''Transition '' @ str_nat i @ '' missing '')"
  define us where "us = (if (case tr_source tr of None \<Rightarrow> True | Some s \<Rightarrow> s \<notin> ids)
                then [''Transition '' @ str_nat i @ '' unknown source: '' @ str_opt (tr_source tr)]
                else [])"
  define ut where "ut = (if (case tr_target tr of None \<Rightarrow> True | Some t \<Rightarrow> t \<notin> ids)
                then [''Transition '' @ str_nat i @ '' unknown target: '' @ str_opt (tr_target tr)]
                else [])"
  define vt where "vt = validate_trigger (case tr_trigger tr of None \<Rightarrow> [] | Some t \<Rightarrow> t)
                dev_map cd bool_ops ops []"
  define va where "va = validate_action (case tr_action tr of None \<Rightarrow> [] | Some a \<Rightarrow> a) dev_map cd []"
  have mk': "mk [] = (if tr_source tr = None then [''Transition '' @ str_nat i @ '' missing source''] else [])
                    @ (if tr_target tr = None then [''Transition '' @ str_nat i @ '' missing target''] else [])
                    @ (if tr_trigger tr = None then [''Transition '' @ str_nat i @ '' missing trigger''] else [])
                    @ (if tr_action tr = None then [''Transition '' @ str_nat i @ '' missing action''] else [])"
    by (simp add: mk_def err_def)
  have e2: "(if (case tr_source tr of None \<Rightarrow> True | Some s \<Rightarrow> s \<notin> ids)
                then err (''Transition '' @ str_nat i @ '' unknown source: '' @ str_opt (tr_source tr)) E'
                else E') = E' @ us" for E'
    by (simp add: us_def err_def)
  have e3: "(if (case tr_target tr of None \<Rightarrow> True | Some t \<Rightarrow> t \<notin> ids)
                then err (''Transition '' @ str_nat i @ '' unknown target: '' @ str_opt (tr_target tr)) E'
                else E') = E' @ ut" for E'
    by (simp add: ut_def err_def)
  have e4: "validate_trigger (case tr_trigger tr of None \<Rightarrow> [] | Some t \<Rightarrow> t)
                dev_map cd bool_ops ops E' = app_errs E' vt" for E'
    unfolding vt_def by (rule validate_trigger_frame)
  have e5: "validate_action (case tr_action tr of None \<Rightarrow> [] | Some a \<Rightarrow> a) dev_map cd E'
                = app_errs E' va" for E'
    unfolding va_def by (rule validate_action_frame)
  have main: "transitions_loop [tr] i ids dev_map cd bool_ops ops [] =
      (case vt of Inl e \<Rightarrow> Inl e
       | Inr td \<Rightarrow> (case va of Inl e \<Rightarrow> Inl e
          | Inr ad \<Rightarrow> Inr (mk [] @ us @ ut @ td @ ad)))"
    unfolding transitions_loop.simps Let_def mk_def [symmetric] e2 e3 e4 e5
    by (cases vt; cases va) simp_all
  show ?thesis
    by (simp only: main mk' us_def ut_def vt_def va_def append_assoc)
qed

lemma devices_loop_append_diags:
  "snd (devices_loop (ds1 @ ds2) cd dev_map []) =
       snd (devices_loop ds1 cd dev_map [])
       @ snd (devices_loop ds2 cd (fst (devices_loop ds1 cd dev_map [])) [])"
proof -
  obtain dm1 e1 where r: "devices_loop ds1 cd dev_map [] = (dm1, e1)"
    by (cases "devices_loop ds1 cd dev_map []")
  show ?thesis
    unfolding devices_loop_append [of ds1 ds2] r prod.case fst_conv snd_conv
      devices_loop_frame [of ds2 cd dm1 e1]
    by simp
qed

lemma states_loop_append_diags:
  "states_loop (ss1 @ ss2) dev_map cd ops ids [] =
       (case states_loop ss1 dev_map cd ops ids [] of
          Inl e \<Rightarrow> Inl e
        | Inr (ids1, d1) \<Rightarrow>
            (case states_loop ss2 dev_map cd ops ids1 [] of
               Inl e \<Rightarrow> Inl e
             | Inr (ids2, d2) \<Rightarrow> Inr (ids2, d1 @ d2)))"
proof (cases "states_loop ss1 dev_map cd ops ids []")
  case (Inl e)
  then show ?thesis unfolding states_loop_append [of ss1 ss2] by simp
next
  case (Inr p)
  obtain ids1 d1 where p: "p = (ids1, d1)" by (cases p)
  show ?thesis
    unfolding states_loop_append [of ss1 ss2] Inr p sum.case prod.case
    by (rule states_loop_frame)
qed

lemma invariants_loop_append_diags:
  "invariants_loop (ivs1 @ ivs2) sid dev_map cd ops [] =
       (case invariants_loop ivs1 sid dev_map cd ops [] of
          Inl e \<Rightarrow> Inl e
        | Inr d1 \<Rightarrow> app_errs d1 (invariants_loop ivs2 sid dev_map cd ops []))"
proof (cases "invariants_loop ivs1 sid dev_map cd ops []")
  case (Inl e)
  then show ?thesis unfolding invariants_loop_append [of ivs1 ivs2] by simp
next
  case (Inr d1)
  show ?thesis
    unfolding invariants_loop_append [of ivs1 ivs2] Inr sum.case
    by (rule invariants_loop_frame)
qed

lemma transitions_loop_append_diags:
  "transitions_loop (ts1 @ ts2) i ids dev_map cd bool_ops ops [] =
       (case transitions_loop ts1 i ids dev_map cd bool_ops ops [] of
          Inl e \<Rightarrow> Inl e
        | Inr d1 \<Rightarrow>
            app_errs d1 (transitions_loop ts2 (i + length ts1) ids dev_map cd bool_ops ops []))"
proof (cases "transitions_loop ts1 i ids dev_map cd bool_ops ops []")
  case (Inl e)
  then show ?thesis unfolding transitions_loop_append [of ts1 ts2] by simp
next
  case (Inr d1)
  show ?thesis
    unfolding transitions_loop_append [of ts1 ts2] Inr sum.case
    by (rule transitions_loop_frame)
qed

lemma states_result_explicit:
  "states_result sp caps =
     (case sp_states sp of
        Items sts \<Rightarrow>
          states_loop sts (fst (fst (validate_devices sp caps [])))
            (snd (fst (validate_devices sp caps []))) (schema_ops caps) {} []
      | _ \<Rightarrow> Inr ({}, []))"
  by (simp add: states_result_def case_prod_beta)

lemma transition_diags_explicit:
  "transition_diags sp caps state_ids =
     (case sp_transitions sp of
        Items trs \<Rightarrow>
          transitions_loop trs 1 state_ids (fst (fst (validate_devices sp caps [])))
            (snd (fst (validate_devices sp caps []))) (schema_bool_ops caps) (schema_ops caps) []
      | _ \<Rightarrow> Inr [])"
  by (simp add: transition_diags_def case_prod_beta)

section \<open>The order of the diagnostics\<close>

text \<open>
  C6 (as stated): the diagnostics are those of the device checks, then those of the state
  checks, then those of the transition checks. The run first records the missing top-level
  keys: Scenario A with the required devices and without the key \<^verbatim>\<open>notes\<close> has no
  diagnostic of the three groups and returns one diagnostic.
\<close>

theorem missing_key_precedes_device_checks:
  "validate scenario_A_without_notes scenario_caps [] = Inr [''Missing key: notes'']
   \<and> validate scenario_A_without_notes scenario_caps [] \<noteq>
       (case states_result scenario_A_without_notes scenario_caps of
          Inl e \<Rightarrow> Inl e
        | Inr (state_ids, sd) \<Rightarrow>
            app_errs (device_diags scenario_A_without_notes scenario_caps @ sd)
              (transition_diags scenario_A_without_notes scenario_caps state_ids))"
  by code_simp

text \<open>
  C6 (amended): when validation returns, its diagnostics are, after the list as it was at
  the call: the missing top-level keys in the order bundle_name, devices, states,
  transitions, notes; then the device checks; then the state checks; then the transition
  checks. The device checks are the diagnostics of the loop over the devices of the
  document, from the empty device map, then the required device ids that the resulting
  map lacks, in the order presenceSensor, motionSensor, switch; a document without a list
  of devices has the one diagnostic \<^verbatim>\<open>Missing devices[]\<close> and empty maps. The state checks
  are those of the loop over the states of the document, from no state id, and the
  transition checks those of the loop over its transitions, numbered from 1, both with
  the maps of the device checks. A state gives its missing id, or else its duplicate id
  and then the diagnostics of the loop over its invariants. A transition gives its missing
  keys, its unknown source, its unknown target, the diagnostics of its trigger and then
  those of its action. Every loop follows the order of its list: the diagnostics of a
  list of devices, states, invariants or transitions are those of any first part of the
  list followed by those of the rest, the rest being checked from the device map, the
  state ids and the transition number reached.
\<close>

theorem diagnostic_order:
  "validate sp caps ERRS =
     (case states_result sp caps of
        Inl e \<Rightarrow> Inl e
      | Inr (state_ids, sd) \<Rightarrow>
          app_errs (ERRS @ key_diags sp @ device_diags sp caps @ sd)
            (transition_diags sp caps state_ids))
   \<and> key_diags sp =
       (if sp_bundle_name sp = None then [''Missing key: bundle_name''] else [])
       @ (if sp_devices sp = Absent then [''Missing key: devices''] else [])
       @ (if sp_states sp = Absent then [''Missing key: states''] else [])
       @ (if sp_transitions sp = Absent then [''Missing key: transitions''] else [])
       @ (if sp_has_notes sp then [] else [''Missing key: notes''])
   \<and> (fst (validate_devices sp caps []), device_diags sp caps) =
       (case sp_devices sp of
          Items ds \<Rightarrow>
            (case devices_loop ds (case caps_devices caps of None \<Rightarrow> Map.empty | Some m \<Rightarrow> m)
                    Map.empty [] of
               (dev_map, dd) \<Rightarrow>
                 ((dev_map, case caps_devices caps of None \<Rightarrow> Map.empty | Some m \<Rightarrow> m),
                  dd
                  @ (if dev_map ''presenceSensor'' = None
                     then [''Required device missing: presenceSensor''] else [])
                  @ (if dev_map ''motionSensor'' = None
                     then [''Required device missing: motionSensor''] else [])
                  @ (if dev_map ''switch'' = None
                     then [''Required device missing: switch''] else [])))
        | _ \<Rightarrow> ((Map.empty, Map.empty), [''Missing devices[]'']))
   \<and> states_result sp caps =
       (case sp_states sp of
          Items sts \<Rightarrow>
            states_loop sts (fst (fst (validate_devices sp caps [])))
              (snd (fst (validate_devices sp caps []))) (schema_ops caps) {} []
        | _ \<Rightarrow> Inr ({}, []))
   \<and> transition_diags sp caps state_ids' =
       (case sp_transitions sp of
          Items trs \<Rightarrow>
            transitions_loop trs 1 state_ids' (fst (fst (validate_devices sp caps [])))
              (snd (fst (validate_devices sp caps []))) (schema_bool_ops caps) (schema_ops caps) []
        | _ \<Rightarrow> Inr [])
   \<and> snd (devices_loop (ds1 @ ds2) cd dev_map []) =
       snd (devices_loop ds1 cd dev_map [])
       @ snd (devices_loop ds2 cd (fst (devices_loop ds1 cd dev_map [])) [])
   \<and> states_loop (ss1 @ ss2) dev_map cd ops ids [] =
       (case states_loop ss1 dev_map cd ops ids [] of
          Inl e \<Rightarrow> Inl e
        | Inr (ids1, d1) \<Rightarrow>
            (case states_loop ss2 dev_map cd ops ids1 [] of
               Inl e \<Rightarrow> Inl e
             | Inr (ids2, d2) \<Rightarrow> Inr (ids2, d1 @ d2)))
   \<and> states_loop [st] dev_map cd ops ids [] =
       (case st_id st of
          None \<Rightarrow> Inr (ids, [''State missing id: '' @ st_repr st])
        | Some sid \<Rightarrow>
            (case st_invariants st of
               NotList \<Rightarrow>
                 Inr (insert sid ids,
                      (if sid \<in> ids then [''Duplicate state id: '' @ sid] else [])
                      @ [''State '' @ sid @ '' invariants must be list''])
             | Absent \<Rightarrow>
                 Inr (insert sid ids, if sid \<in> ids then [''Duplicate state id: '' @ sid] else [])
             | Items invs \<Rightarrow>
                 (case invariants_loop invs sid dev_map cd ops [] of
                    Inl e \<Rightarrow> Inl e
                  | Inr d \<Rightarrow>
                      Inr (insert sid ids,
                           (if sid \<in> ids then [''Duplicate state id: '' @ sid] else []) @ d))))
   \<and> invariants_loop (ivs1 @ ivs2) sid' dev_map cd ops [] =
       (case invariants_loop ivs1 sid' dev_map cd ops [] of
          Inl e \<Rightarrow> Inl e
        | Inr d1 \<Rightarrow> app_errs d1 (invariants_loop ivs2 sid' dev_map cd ops []))
   \<and> transitions_loop (ts1 @ ts2) i ids dev_map cd bool_ops ops [] =
       (case transitions_loop ts1 i ids dev_map cd bool_ops ops [] of
          Inl e \<Rightarrow> Inl e
        | Inr d1 \<Rightarrow>
            app_errs d1 (transitions_loop ts2 (i + length ts1) ids dev_map cd bool_ops ops []))
   \<and> transitions_loop [tr] i ids dev_map cd bool_ops ops [] =
       (case validate_trigger (case tr_trigger tr of None \<Rightarrow> [] | Some t \<Rightarrow> t)
               dev_map cd bool_ops ops [] of
          Inl e \<Rightarrow> Inl e
        | Inr td \<Rightarrow>
            (case validate_action (case tr_action tr of None \<Rightarrow> [] | Some a \<Rightarrow> a) dev_map cd [] of
               Inl e \<Rightarrow> Inl e
             | Inr ad \<Rightarrow>
                 Inr ((if tr_source tr = None then [''Transition '' @ str_nat i @ '' missing source''] else [])
                      @ (if tr_target tr = None then [''Transition '' @ str_nat i @ '' missing target''] else [])
                      @ (if tr_trigger tr = None then [''Transition '' @ str_nat i @ '' missing trigger''] else [])
                      @ (if tr_action tr = None then [''Transition '' @ str_nat i @ '' missing action''] else [])
                      @ (if (case tr_source tr of None \<Rightarrow> True | Some s \<Rightarrow> s \<notin> ids)
                         then [''Transition '' @ str_nat i @ '' unknown source: '' @ str_opt (tr_source tr)]
                         else [])
                      @ (if (case tr_target tr of None \<Rightarrow> True | Some t \<Rightarrow> t \<notin> ids)
                         then [''Transition '' @ str_nat i @ '' unknown target: '' @ str_opt (tr_target tr)]
                         else [])
                      @ td @ ad)))"
proof -
  have dv: "(fst (validate_devices sp caps []), device_diags sp caps) = validate_devices sp caps []"
    by (simp add: device_diags_def)
  show ?thesis
    unfolding dv
    by (intro conjI validate_groups key_diags_explicit validate_devices_explicit
        states_result_explicit transition_diags_explicit devices_loop_append_diags states_loop_append_diags states_loop_single
        invariants_loop_append_diags transitions_loop_append_diags transitions_loop_single)
qed

section \<open>An invariant with an unknown attribute\<close>

lemma invariants_loop_unknown_attribute:
  assumes "TRIG_ATOM_RE_match iv = Some (dev, attr, op, val)" "dev_map dev = Some dtype"
    "cd dtype = Some ct" "ct_attributes ct attr = None"
  shows "invariants_loop (iv # ivs) sid dev_map cd ops ERRS = Inl (KeyError attr)"
    and "validate_atom iv dev_map cd ops ERRS = Inr (ERRS @ [''Unknown attribute '' @ dev @ ''.'' @ attr])"
  using assms by (simp_all add: validate_atom_def err_def Let_def)

text \<open>
  C2: validation never raises on a well-formed bundle; an invariant atom with a known
  device and an unknown attribute is recorded and the run goes on. In the source the loop
  over the invariants records the unknown attribute and then, with no \<^verbatim>\<open>continue\<close>,
  indexes the attributes of the type with it: the run ends with \<^verbatim>\<open>KeyError\<close> and
  prints no diagnostic. \<^verbatim>\<open>validate_atom\<close> returns after the same diagnostic.
\<close>

theorem unknown_attribute_invariant_raises:
  \<open>validate scenario_unknown_attribute scenario_caps [] = Inl (KeyError ''color'')
   \<and> main scenario_unknown_attribute scenario_caps [] = Inl (KeyError ''color'')
   \<and> validate_atom ''switch1.color == "red"'' [''switch1'' \<mapsto> ''switch''] [''switch'' \<mapsto> switch_type]
        {''=='', ''!=''} [] = Inr [''Unknown attribute switch1.color'']\<close>
  by code_simp

section \<open>The message of a value outside the allowed set\<close>

lemma sorted_set_props:
  "sorted (sorted_set xs) \<and> distinct (sorted_set xs) \<and> set (sorted_set xs) = set xs"
  by (simp add: sorted_set_def)

lemma invalid_value_diagnostics:
  assumes "TRIG_ATOM_RE_match atom = Some (dev, attr, op, val)" "dev_map dev = Some dtype"
    "cd dtype = Some ct" "ct_attributes ct attr = Some allowed" "op \<in> ops" "val \<notin> set allowed"
  shows "validate_atom atom dev_map cd ops ERRS =
           Inr (ERRS @ [''Invalid value '' @ val @ '' for '' @ dev @ ''.'' @ attr
                        @ ''; allowed='' @ repr_list (sorted_set allowed)])"
    and "invariants_loop [atom] sid dev_map cd ops ERRS =
           Inr (ERRS @ [''Invalid value '' @ val @ '' for '' @ dev @ ''.'' @ attr @ '' in invariant''])"
  using assms by (simp_all add: validate_atom_def err_def Let_def)

text \<open>
  C4: the diagnostic of a value outside the allowed set shows the allowed set, sorted, for
  an atom of a trigger and for an atom of an invariant. \<^verbatim>\<open>validate_atom\<close> does so; the
  loop over the invariants writes a message of its own that stops after the attribute.
\<close>

theorem invalid_value_messages:
  \<open>validate scenario_B_trigger scenario_caps [] =
     Inr [''Invalid value maybe for switch1.power; allowed=['off', 'on']'']
   \<and> validate scenario_B_invariant scenario_caps [] =
     Inr [''Invalid value maybe for switch1.power in invariant'']\<close>
  by code_simp

section \<open>The generator against the identifier scheme\<close>

lemma plain_stateD:
  "plain_state s = Some (S, invs) \<Longrightarrow>
     st_id s = Some S \<and> st_invariants s \<noteq> NotList
     \<and> (case st_invariants s of Items ivs \<Rightarrow> ivs | _ \<Rightarrow> []) = invs"
  by (auto simp: plain_state_def split: option.splits jfield.splits)

lemma plain_transitionD:
  "plain_transition tr = Some (src, tgt, trig, act) \<Longrightarrow>
     tr_source tr = Some src \<and> tr_target tr = Some tgt \<and> tr_trigger tr = Some trig
     \<and> tr_action tr = Some act"
  by (auto simp: plain_transition_def split: option.splits)

lemma state_xmi_ids_loop_plain:
  "list_all2 (\<lambda>s p. plain_state s = Some p) sts ps \<Longrightarrow>
     \<exists>ids. state_xmi_ids_loop sts m = Inr ids
       \<and> (\<forall>S. ids S = (if S \<in> fst ` set ps then Some (ext_state_id S) else m S))"
proof (induction sts ps arbitrary: m rule: list_all2_induct)
  case Nil
  then show ?case by simp
next
  case (Cons s sts p ps)
  obtain S invs where p: "p = (S, invs)" by (cases p)
  from Cons.hyps(1) p have sid: "st_id s = Some S" using plain_stateD by blast
  from Cons.IH [of "m(S \<mapsto> ''s_'' @ S)"] obtain ids where
    ids: "state_xmi_ids_loop sts (m(S \<mapsto> ''s_'' @ S)) = Inr ids"
      "\<forall>T. ids T = (if T \<in> fst ` set ps then Some (ext_state_id T) else (m(S \<mapsto> ''s_'' @ S)) T)"
    by blast
  show ?case
    using sid ids p by (auto simp: ext_state_id_def)
qed

lemma state_nodes_loop_plain:
  "list_all2 (\<lambda>s p. plain_state s = Some p) sts ps \<Longrightarrow>
   \<forall>S \<in> fst ` set ps. ids S = Some (ext_state_id S) \<Longrightarrow>
     state_nodes_loop sts ids out =
       Inr (out @ map (\<lambda>(S, invs). state_line (ext_state_id S) S) ps)"
proof (induction sts ps arbitrary: out rule: list_all2_induct)
  case Nil
  then show ?case by simp
next
  case (Cons s sts p ps)
  obtain S invs where p: "p = (S, invs)" by (cases p)
  from Cons.hyps(1) p have sid: "st_id s = Some S" using plain_stateD by blast
  from Cons.prems p have i: "ids S = Some (ext_state_id S)" by simp
  from Cons.prems have r: "\<forall>S \<in> fst ` set ps. ids S = Some (ext_state_id S)" by simp
  show ?case
    using sid i p by (simp add: Cons.IH [OF r] state_line_def)
qed

lemma transitions_lines_loop_plain:
  "list_all2 (\<lambda>t p. plain_transition t = Some p) trs pt \<Longrightarrow>
   \<forall>(src, tgt, trig, act) \<in> set pt.
      ids src = Some (ext_state_id src) \<and> ids tgt = Some (ext_state_id tgt) \<Longrightarrow>
     transitions_lines_loop trs i ids out =
       Inr (out @ map (\<lambda>(n, (src, tgt, trig, act)).
                         transition_line (ext_transition_id n) (ext_state_id src) (ext_state_id tgt))
                    (enumerate i pt))"
proof (induction trs pt arbitrary: i out rule: list_all2_induct)
  case Nil
  then show ?case by simp
next
  case (Cons t trs p pt)
  obtain src tgt trig act where p: "p = (src, tgt, trig, act)" by (cases p)
  note d = plain_transitionD [OF Cons.hyps(1) [unfolded p]]
  from Cons.prems p have i: "ids src = Some (ext_state_id src)" "ids tgt = Some (ext_state_id tgt)"
    by simp_all
  from Cons.prems have r: "\<forall>(src, tgt, trig, act) \<in> set pt.
      ids src = Some (ext_state_id src) \<and> ids tgt = Some (ext_state_id tgt)" by simp
  show ?case
    using d i p
    by (simp add: Cons.IH [OF r] subscript_def transition_line_def ext_transition_id_def Let_def)
qed

lemma stereo_states_loop_plain:
  "list_all2 (\<lambda>s p. plain_state s = Some p) sts ps \<Longrightarrow>
   \<forall>S \<in> fst ` set ps. ids S = Some (ext_state_id S) \<Longrightarrow>
     stereo_states_loop sts k ids out =
       Inr (out @ concat (map (\<lambda>(k, (S, invs)). invariant_block (stinv_id k) (ext_state_id S) invs)
                           (enumerate k ps)))"
proof (induction sts ps arbitrary: k out rule: list_all2_induct)
  case Nil
  then show ?case by simp
next
  case (Cons s sts p ps)
  obtain S invs where p: "p = (S, invs)" by (cases p)
  note d = plain_stateD [OF Cons.hyps(1) [unfolded p]]
  from Cons.prems p have i: "ids S = Some (ext_state_id S)" by simp
  from Cons.prems have r: "\<forall>S \<in> fst ` set ps. ids S = Some (ext_state_id S)" by simp
  show ?case
  proof (cases "st_invariants s")
    case NotList
    with d show ?thesis by simp
  next
    case Absent
    with d i p show ?thesis
      by (simp add: Cons.IH [OF r] subscript_def invariant_block_def stinv_id_def)
  next
    case (Items ivs)
    with d i p show ?thesis
      by (simp add: Cons.IH [OF r] subscript_def invariant_block_def stinv_id_def)
  qed
qed

lemma stereo_transitions_loop_plain:
  "list_all2 (\<lambda>t p. plain_transition t = Some p) trs pt \<Longrightarrow>
     stereo_transitions_loop trs i out =
       Inr (out @ concat (map (\<lambda>(n, (src, tgt, trig, act)).
                      trigger_block (trig_id n) (ext_transition_id n) trig
                      @ action_block (act_id n) (ext_transition_id n) act)
                 (enumerate i pt)))"
proof (induction trs pt arbitrary: i out rule: list_all2_induct)
  case Nil
  then show ?case by simp
next
  case (Cons t trs p pt)
  obtain src tgt trig act where p: "p = (src, tgt, trig, act)" by (cases p)
  note d = plain_transitionD [OF Cons.hyps(1) [unfolded p]]
  show ?case
    using d p
    by (simp add: Cons.IH trigger_block_def action_block_def trig_id_def act_id_def
        ext_transition_id_def Let_def)
qed

lemma states_loop_single_clean:
  "states_loop [st] dev_map cd ops ids0 [] = Inr (ids1, []) \<Longrightarrow>
     \<exists>p. plain_state st = Some p \<and> ids1 = insert (fst p) ids0"
  by (auto simp: plain_state_def err_def Let_def
      split: option.splits jfield.splits sum.splits if_splits)

lemma states_loop_clean:
  "states_loop sts dev_map cd ops ids0 [] = Inr (ids, []) \<Longrightarrow>
     \<exists>ps. list_all2 (\<lambda>s p. plain_state s = Some p) sts ps \<and> ids = ids0 \<union> fst ` set ps"
proof (induction sts arbitrary: ids0)
  case Nil
  then show ?case by simp
next
  case (Cons st sts)
  from Cons.prems obtain ids1 d where
    1: "states_loop [st] dev_map cd ops ids0 [] = Inr (ids1, d)"
    and 2: "states_loop sts dev_map cd ops ids1 d = Inr (ids, [])"
    unfolding states_loop_Cons [of st sts]
    by (auto split: sum.splits)
  from 2 have "d = [] \<and> states_loop sts dev_map cd ops ids1 [] = Inr (ids, [])"
    unfolding states_loop_frame [of sts dev_map cd ops ids1 d]
    by (auto split: sum.splits)
  with 1 Cons.IH [of ids1] states_loop_single_clean [of st dev_map cd ops ids0 ids1]
  obtain p ps where "plain_state st = Some p" "ids1 = insert (fst p) ids0"
    "list_all2 (\<lambda>s p. plain_state s = Some p) sts ps" "ids = ids1 \<union> fst ` set ps"
    by auto
  then show ?case
    by (intro exI [of _ "p # ps"]) auto
qed

lemma missing_keys_loop_clean:
  "missing_keys_loop ks p [] = [] \<Longrightarrow> \<forall>(k, present) \<in> set ks. present"
proof (induction ks)
  case Nil
  then show ?case by simp
next
  case (Cons k ks)
  obtain key present where k: "k = (key, present)" by (cases k)
  from Cons.prems have "(if present then [] else [p @ key]) @ missing_keys_loop ks p [] = []"
    unfolding k using missing_keys_loop_frame [of ks p "if present then [] else [p @ key]"]
    by (simp add: err_def split: if_splits)
  then have "present" "missing_keys_loop ks p [] = []" by (auto split: if_splits)
  with Cons.IH k show ?case by simp
qed

lemma transitions_loop_single_clean:
  assumes "transitions_loop [tr] i ids dev_map cd bool_ops ops [] = Inr []"
  shows "\<exists>p. plain_transition tr = Some p \<and> fst p \<in> ids \<and> fst (snd p) \<in> ids"
proof -
  define E1 where "E1 = missing_keys_loop
                 [(''source'', tr_source tr \<noteq> None), (''target'', tr_target tr \<noteq> None),
                  (''trigger'', tr_trigger tr \<noteq> None), (''action'', tr_action tr \<noteq> None)]
                 (''Transition '' @ str_nat i @ '' missing '') []"
  define E2 where "E2 = (if (case tr_source tr of None \<Rightarrow> True | Some s \<Rightarrow> s \<notin> ids)
                then err (''Transition '' @ str_nat i @ '' unknown source: '' @ str_opt (tr_source tr)) E1
                else E1)"
  define E3 where "E3 = (if (case tr_target tr of None \<Rightarrow> True | Some t \<Rightarrow> t \<notin> ids)
                then err (''Transition '' @ str_nat i @ '' unknown target: '' @ str_opt (tr_target tr)) E2
                else E2)"
  from assms obtain E4 where
    4: "validate_trigger (case tr_trigger tr of None \<Rightarrow> [] | Some t \<Rightarrow> t)
          dev_map cd bool_ops ops E3 = Inr E4"
    and 5: "validate_action (case tr_action tr of None \<Rightarrow> [] | Some a \<Rightarrow> a) dev_map cd E4 = Inr []"
    unfolding transitions_loop.simps Let_def E1_def [symmetric] E2_def [symmetric] E3_def [symmetric]
    by (auto split: sum.splits)
  from 5 have "E4 = []"
    unfolding validate_action_frame [of _ dev_map cd E4]
    by (cases "validate_action (case tr_action tr of None \<Rightarrow> [] | Some a \<Rightarrow> a) dev_map cd []") simp_all
  with 4 have "E3 = []"
    unfolding validate_trigger_frame [of _ dev_map cd bool_ops ops E3]
    by (cases "validate_trigger (case tr_trigger tr of None \<Rightarrow> [] | Some t \<Rightarrow> t)
          dev_map cd bool_ops ops []") simp_all
  then have e: "E1 = []" "\<not> (case tr_source tr of None \<Rightarrow> True | Some s \<Rightarrow> s \<notin> ids)"
    "\<not> (case tr_target tr of None \<Rightarrow> True | Some t \<Rightarrow> t \<notin> ids)"
    unfolding E3_def E2_def by (auto simp: err_def split: if_splits)
  from missing_keys_loop_clean [OF e(1) [unfolded E1_def]]
  have "tr_source tr \<noteq> None" "tr_target tr \<noteq> None" "tr_trigger tr \<noteq> None" "tr_action tr \<noteq> None"
    by simp_all
  with e(2,3) show ?thesis
    by (auto simp: plain_transition_def)
qed

lemma transitions_loop_clean:
  "transitions_loop trs i ids dev_map cd bool_ops ops [] = Inr [] \<Longrightarrow>
     \<exists>pt. list_all2 (\<lambda>t p. plain_transition t = Some p) trs pt
       \<and> (\<forall>(src, tgt, trig, act) \<in> set pt. src \<in> ids \<and> tgt \<in> ids)"
proof (induction trs arbitrary: i)
  case Nil
  then show ?case by simp
next
  case (Cons tr trs)
  from Cons.prems obtain d where
    1: "transitions_loop [tr] i ids dev_map cd bool_ops ops [] = Inr d"
    and 2: "transitions_loop trs (i + 1) ids dev_map cd bool_ops ops d = Inr []"
    unfolding transitions_loop_Cons [of tr trs]
    by (auto split: sum.splits)
  from 2 have "d = [] \<and> transitions_loop trs (i + 1) ids dev_map cd bool_ops ops [] = Inr []"
    unfolding transitions_loop_frame [of trs "i + 1" ids dev_map cd bool_ops ops d]
    by (cases "transitions_loop trs (i + 1) ids dev_map cd bool_ops ops []") simp_all
  with 1 Cons.IH [of "i + 1"] transitions_loop_single_clean [of tr i ids dev_map cd bool_ops ops]
  obtain p pt where "plain_transition tr = Some p" "fst p \<in> ids" "fst (snd p) \<in> ids"
    "list_all2 (\<lambda>t p. plain_transition t = Some p) trs pt"
    "\<forall>(src, tgt, trig, act) \<in> set pt. src \<in> ids \<and> tgt \<in> ids"
    by auto
  then show ?case
    by (intro exI [of _ "p # pt"]) (auto simp: case_prod_beta)
qed

lemma validated_plain:
  assumes v: "validate sp caps [] = Inr []"
    and s: "sp_states sp = Items sts" and t: "sp_transitions sp = Items trs"
  shows "\<exists>ps pt. list_all2 (\<lambda>s p. plain_state s = Some p) sts ps
           \<and> list_all2 (\<lambda>t p. plain_transition t = Some p) trs pt
           \<and> (\<forall>(src, tgt, trig, act) \<in> set pt. src \<in> fst ` set ps \<and> tgt \<in> fst ` set ps)"
proof -
  obtain dev_map cd where vd: "fst (validate_devices sp caps []) = (dev_map, cd)"
    by (cases "fst (validate_devices sp caps [])")
  from v obtain ids sd where sr: "states_result sp caps = Inr (ids, sd)"
    and a: "app_errs (key_diags sp @ device_diags sp caps @ sd) (transition_diags sp caps ids) = Inr []"
    unfolding validate_groups [of sp caps "[]"]
    by (cases "states_result sp caps") auto
  from a have sd: "sd = []" and td: "transition_diags sp caps ids = Inr []"
    by (cases "transition_diags sp caps ids"; simp)+
  from sr sd have "states_loop sts dev_map cd (schema_ops caps) {} [] = Inr (ids, [])"
    unfolding states_result_def vd s by simp
  from states_loop_clean [OF this] obtain ps where
    ps: "list_all2 (\<lambda>s p. plain_state s = Some p) sts ps" "ids = fst ` set ps" by auto
  from td have "transitions_loop trs 1 ids dev_map cd (schema_bool_ops caps) (schema_ops caps) [] = Inr []"
    unfolding transition_diags_def vd t by simp
  from transitions_loop_clean [OF this] ps show ?thesis by blast
qed

lemma last_str_nat: "last (str_nat n) = char_of (48 + n mod 10)"
  by (induction n rule: str_nat.induct) (subst str_nat.simps, simp)

lemma str_nat_not_init: "str_nat n \<noteq> ''init''"
proof
  assume "str_nat n = ''init''"
  then have "last (str_nat n) = CHR ''t''" by simp
  then have "(of_char (char_of (48 + n mod 10) :: char) :: nat) = of_char (CHR ''t'')"
    by (simp add: last_str_nat)
  moreover have "48 + n mod 10 < 256" by simp
  ultimately show False by (simp add: of_char_of) 
qed

lemma build_sections_plain:
  assumes ps: "list_all2 (\<lambda>s p. plain_state s = Some p) sts ps"
    and pt: "list_all2 (\<lambda>t p. plain_transition t = Some p) trs pt"
    and refs: "\<forall>(src, tgt, trig, act) \<in> set pt. src \<in> fst ` set ps \<and> tgt \<in> fst ` set ps"
    and ne: "sts \<noteq> []"
  shows "build_sections sts trs =
           Inr (expected_state_nodes ps, expected_transitions ps pt, expected_stereotypes ps pt)"
proof -
  from state_xmi_ids_loop_plain [OF ps, of Map.empty] obtain ids where
    ids: "state_xmi_ids_loop sts Map.empty = Inr ids"
      "\<forall>S. ids S = (if S \<in> fst ` set ps then Some (ext_state_id S) else None)"
    by auto
  from ids(2) have known: "\<forall>S \<in> fst ` set ps. ids S = Some (ext_state_id S)" by simp
  with refs have known': "\<forall>(src, tgt, trig, act) \<in> set pt.
      ids src = Some (ext_state_id src) \<and> ids tgt = Some (ext_state_id tgt)"
    by fastforce
  have 1: "make_state_nodes sts ids = Inr (expected_state_nodes ps)"
    by (simp add: make_state_nodes_def state_nodes_loop_plain [OF ps known]
        expected_state_nodes_def subvertex_line_def init_node_id_def final_node_id_def)
  from ne ps obtain s0 sts' p0 ps' where
    c: "sts = s0 # sts'" "ps = p0 # ps'" "plain_state s0 = Some p0"
    by (cases sts; cases ps) auto
  obtain S0 invs0 where p0: "p0 = (S0, invs0)" by (cases p0)
  from c p0 have s0: "st_id s0 = Some S0" using plain_stateD by blast
  from known c p0 have i0: "ids S0 = Some (ext_state_id S0)" by simp
  have 2: "make_transitions sts trs ids = Inr (expected_transitions ps pt)"
    unfolding make_transitions_def c(1) list.case
    using s0 i0
    by (simp add: subscript_def transitions_lines_loop_plain [OF pt known']
        expected_transitions_def c(2) p0 transition_line_def init_transition_id_def init_node_id_def)
  have 3: "make_stereotypes sts trs ids = Inr (expected_stereotypes ps pt)"
    by (simp add: make_stereotypes_def stereo_states_loop_plain [OF ps known]
        stereo_transitions_loop_plain [OF pt] expected_stereotypes_def)
  show ?thesis
    by (simp add: build_sections_def ids(1) 1 2 3)
qed

text \<open>
  C8 (as stated): for every validated bundle the generator assigns the identifiers of the
  scheme. A bundle with the three required devices, no state and no transition has no
  diagnostic, and the generator raises \<^verbatim>\<open>IndexError\<close> on it at \<^verbatim>\<open>states[0]\<close>, where
  it looks for the target of the initial transition.
\<close>

theorem validated_without_states_raises:
  "validate scenario_no_states scenario_caps [] = Inr []
   \<and> sp_states scenario_no_states = Items []
   \<and> sp_transitions scenario_no_states = Items []
   \<and> make_transitions [] [] Map.empty = Inl IndexError
   \<and> build_sections [] [] = Inl IndexError"
  by code_simp

text \<open>
  C8 (amended): for every validated bundle with at least one state, its states and
  transitions being lists, the generator returns the three sections of the scheme: the
  state \<open>S\<close> has the id \<open>s_S\<close>, the initial and final nodes the ids \<open>init_1\<close> and
  \<open>final_1\<close>, the initial transition the id \<open>t_init\<close> and its target is the first
  state, the n-th transition the id \<open>t_n\<close> with the blocks \<open>trig_n\<close> and \<open>act_n\<close> that
  name it, the k-th state the block \<open>stinv_k\<close>; no block names \<open>t_init\<close>, since no
  \<open>t_n\<close> is \<open>t_init\<close>.
\<close>

theorem identifier_assignment:
  assumes "validate sp caps [] = Inr []"
    and "sp_states sp = Items sts" and "sp_transitions sp = Items trs"
    and "sts \<noteq> []"
  shows "\<exists>ps pt. list_all2 (\<lambda>s p. plain_state s = Some p) sts ps
           \<and> list_all2 (\<lambda>t p. plain_transition t = Some p) trs pt
           \<and> build_sections sts trs =
               Inr (expected_state_nodes ps, expected_transitions ps pt, expected_stereotypes ps pt)
           \<and> (\<forall>n. ext_transition_id n \<noteq> init_transition_id)"
proof -
  from validated_plain [OF assms(1-3)] obtain ps pt where
    p: "list_all2 (\<lambda>s p. plain_state s = Some p) sts ps"
      "list_all2 (\<lambda>t p. plain_transition t = Some p) trs pt"
      "\<forall>(src, tgt, trig, act) \<in> set pt. src \<in> fst ` set ps \<and> tgt \<in> fst ` set ps"
    by blast
  have "\<forall>n. ext_transition_id n \<noteq> init_transition_id"
    by (simp add: ext_transition_id_def init_transition_id_def str_nat_not_init)
  with p build_sections_plain [OF p assms(4)] show ?thesis by blast
qed

theorem identifier_assignment_witness:
  \<open>build_sections scenario_A_states scenario_A_transitions =
     Inr (expected_state_nodes
            [(''Idle'', [''switch1.power == "off"'']), (''On'', [''switch1.power == "on"''])],
          expected_transitions
            [(''Idle'', [''switch1.power == "off"'']), (''On'', [''switch1.power == "on"''])]
            [(''Idle'', ''On'', ''switch1.power == "off"'', ''switch1.toggle()'')],
          expected_stereotypes
            [(''Idle'', [''switch1.power == "off"'']), (''On'', [''switch1.power == "on"''])]
            [(''Idle'', ''On'', ''switch1.power == "off"'', ''switch1.toggle()'')])
   \<and> expected_transitions
         [(''Idle'', [''switch1.power == "off"'']), (''On'', [''switch1.power == "on"''])]
         [(''Idle'', ''On'', ''switch1.power == "off"'', ''switch1.toggle()'')] =
       [''      <transition xmi:type="uml:Transition" xmi:id="t_init" source="init_1" target="s_Idle"/>'',
        ''      <transition xmi:type="uml:Transition" xmi:id="t_1" source="s_Idle" target="s_On"/>'']\<close>
proof -
  have 1: "validate scenario_A_with_baseline scenario_caps [] = Inr []" by code_simp
  have 2: "sp_states scenario_A_with_baseline = Items scenario_A_states"
    "sp_transitions scenario_A_with_baseline = Items scenario_A_transitions"
    by (simp_all add: scenario_A_with_baseline_def scenario_A_def)
  have 3: "scenario_A_states \<noteq> []" by (simp add: scenario_A_states_def)
  from identifier_assignment [OF 1 2 3] obtain ps pt where
    a: "list_all2 (\<lambda>s p. plain_state s = Some p) scenario_A_states ps"
    and b: "list_all2 (\<lambda>t p. plain_transition t = Some p) scenario_A_transitions pt"
    and c: "build_sections scenario_A_states scenario_A_transitions =
          Inr (expected_state_nodes ps, expected_transitions ps pt, expected_stereotypes ps pt)"
    by blast
  from a have ps: \<open>ps = [(''Idle'', [''switch1.power == "off"'']), (''On'', [''switch1.power == "on"''])]\<close>
    by (auto simp: scenario_A_states_def list_all2_Cons1 plain_state_def)
  from b have pt: \<open>pt = [(''Idle'', ''On'', ''switch1.power == "off"'', ''switch1.toggle()'')]\<close>
    by (auto simp: scenario_A_transitions_def list_all2_Cons1 plain_transition_def)
  have 4: \<open>expected_transitions
         [(''Idle'', [''switch1.power == "off"'']), (''On'', [''switch1.power == "on"''])]
         [(''Idle'', ''On'', ''switch1.power == "off"'', ''switch1.toggle()'')] =
       [''      <transition xmi:type="uml:Transition" xmi:id="t_init" source="init_1" target="s_Idle"/>'',
        ''      <transition xmi:type="uml:Transition" xmi:id="t_1" source="s_Idle" target="s_On"/>'']\<close>
    by code_simp
  from c 4 show ?thesis unfolding ps pt by simp
qed

section \<open>The device map and the schema\<close>

text \<open>
  The device map that \<^verbatim>\<open>validate_devices\<close> returns maps every device to a type of the
  schema it returns: the hypothesis of the theorem on triggers that end with a connective
  holds wherever \<^verbatim>\<open>main\<close> calls \<^verbatim>\<open>validate_trigger\<close>.
\<close>

lemma devices_loop_single_consistent:
  "ran dev_map \<subseteq> dom cd \<Longrightarrow> ran (fst (devices_loop [d] cd dev_map [])) \<subseteq> dom cd"
proof -
  assume a: "ran dev_map \<subseteq> dom cd"
  have b: "ran (dev_map(did \<mapsto> dtype)) \<subseteq> dom cd" if "cd dtype = Some ct" for did dtype ct
    using a that by (auto simp: ran_def)
  show ?thesis
    using a b by (auto simp: Let_def split: option.splits)
qed

lemma devices_loop_consistent:
  "ran dev_map \<subseteq> dom cd \<Longrightarrow> ran (fst (devices_loop ds cd dev_map ERRS)) \<subseteq> dom cd"
proof (induction ds arbitrary: dev_map ERRS)
  case Nil
  then show ?case by simp
next
  case (Cons d ds)
  obtain dm1 ds1 where s: "devices_loop [d] cd dev_map [] = (dm1, ds1)"
    by (cases "devices_loop [d] cd dev_map []")
  from devices_loop_single_consistent [OF Cons.prems, of d] s have "ran dm1 \<subseteq> dom cd" by simp
  from Cons.IH [OF this] show ?case
    unfolding devices_loop_Cons [of d ds] s by simp
qed

lemma validate_devices_consistent:
  "fst (validate_devices sp caps ERRS) = (dev_map, cd) \<Longrightarrow> ran dev_map \<subseteq> dom cd"
proof (cases "sp_devices sp")
  case (Items ds)
  assume "fst (validate_devices sp caps ERRS) = (dev_map, cd)"
  with Items have "dev_map = fst (devices_loop ds cd Map.empty ERRS)"
    by (auto simp: validate_devices_def Let_def split_beta)
  then show ?thesis using devices_loop_consistent [of Map.empty cd ds ERRS] by simp
qed (auto simp: validate_devices_def)

section \<open>When the run raises\<close>

text \<open>
  The run raises exactly when the loop over the states reaches an invariant that is an
  atom on a declared device and names an attribute its type does not have. The checks of
  the devices, of the triggers and of the actions never raise.
\<close>

lemma invariants_loop_single_raises:
  "(\<exists>e. invariants_loop [iv] sid dev_map cd ops [] = Inl e) =
     (\<not> invariant_attribute_known dev_map cd iv)"
  by (auto simp: invariant_attribute_known_def Let_def split: option.splits)

lemma invariants_loop_raises_iff:
  "(\<exists>e. invariants_loop ivs sid dev_map cd ops ERRS = Inl e) =
     (\<not> list_all (invariant_attribute_known dev_map cd) ivs)"
proof (induction ivs arbitrary: ERRS)
  case Nil
  then show ?case by simp
next
  case (Cons iv ivs)
  show ?case
  proof (cases "invariants_loop [iv] sid dev_map cd ops []")
    case (Inl e)
    with invariants_loop_single_raises [of iv sid dev_map cd ops]
    have "\<not> invariant_attribute_known dev_map cd iv" by auto
    with Inl show ?thesis unfolding invariants_loop_Cons [of iv ivs] by simp
  next
    case (Inr d)
    with invariants_loop_single_raises [of iv sid dev_map cd ops]
    have "invariant_attribute_known dev_map cd iv" by auto
    with Inr Cons.IH [of "ERRS @ d"] show ?thesis
      unfolding invariants_loop_Cons [of iv ivs] by simp
  qed
qed

lemma states_loop_single_raises:
  "(\<exists>e. states_loop [st] dev_map cd ops ids [] = Inl e) =
     (\<not> state_invariants_known dev_map cd st)"
proof (cases "st_id st")
  case None
  then show ?thesis by (simp add: state_invariants_known_def)
next
  case (Some sid)
  show ?thesis
  proof (cases "st_invariants st")
    case (Items invs)
    define E1 where "E1 = (if sid \<in> ids then err (''Duplicate state id: '' @ sid) [] else [])"
    have r: "states_loop [st] dev_map cd ops ids [] =
        (case invariants_loop invs sid dev_map cd ops E1 of
           Inl e \<Rightarrow> Inl e | Inr E2 \<Rightarrow> Inr (insert sid ids, E2))"
      using Some Items by (auto simp: Let_def E1_def split: sum.splits)
    have k: "state_invariants_known dev_map cd st =
        list_all (invariant_attribute_known dev_map cd) invs"
      using Some Items by (simp add: state_invariants_known_def)
    show ?thesis
      unfolding r k
      using invariants_loop_raises_iff [of invs sid dev_map cd ops E1]
      by (cases "invariants_loop invs sid dev_map cd ops E1") auto
  qed (simp_all add: Some state_invariants_known_def Let_def)
qed

lemma states_loop_raises_iff:
  "(\<exists>e. states_loop sts dev_map cd ops ids ERRS = Inl e) =
     (\<not> list_all (state_invariants_known dev_map cd) sts)"
proof (induction sts arbitrary: ids ERRS)
  case Nil
  then show ?case by simp
next
  case (Cons st sts)
  show ?case
  proof (cases "states_loop [st] dev_map cd ops ids []")
    case (Inl e)
    with states_loop_single_raises [of st dev_map cd ops ids]
    have "\<not> state_invariants_known dev_map cd st" by auto
    with Inl show ?thesis unfolding states_loop_Cons [of st sts] by simp
  next
    case (Inr p)
    obtain ids1 d where p: "p = (ids1, d)" by (cases p)
    from Inr states_loop_single_raises [of st dev_map cd ops ids]
    have "state_invariants_known dev_map cd st" by auto
    with Inr p Cons.IH [of ids1 "ERRS @ d"] show ?thesis
      unfolding states_loop_Cons [of st sts] by simp
  qed
qed

lemma validate_action_total:
  "ran dev_map \<subseteq> dom cd \<Longrightarrow> \<exists>ds. validate_action act dev_map cd ERRS = Inr ds"
  by (auto simp: validate_action_def ran_def split: option.splits)

lemma validate_trigger_total:
  assumes "ran dev_map \<subseteq> dom cd"
  shows "\<exists>ds. validate_trigger expr dev_map cd bool_ops ops ERRS = Inr ds"
proof -
  from trigger_loop_total [OF assms, of "split_bool expr bool_ops" True bool_ops ops]
  obtain f ds where "trigger_loop (split_bool expr bool_ops) True dev_map cd bool_ops ops [] = Inr (f, ds)"
    by blast
  then show ?thesis
    unfolding validate_trigger_frame [of expr dev_map cd bool_ops ops ERRS]
    by (simp add: validate_trigger_def Let_def)
qed

lemma transitions_loop_total:
  assumes "ran dev_map \<subseteq> dom cd"
  shows "\<exists>ds. transitions_loop trs i ids dev_map cd bool_ops ops ERRS = Inr ds"
proof (induction trs arbitrary: i ERRS)
  case Nil
  then show ?case by simp
next
  case (Cons tr trs)
  define E1 where "E1 = missing_keys_loop
                 [(''source'', tr_source tr \<noteq> None), (''target'', tr_target tr \<noteq> None),
                  (''trigger'', tr_trigger tr \<noteq> None), (''action'', tr_action tr \<noteq> None)]
                 (''Transition '' @ str_nat i @ '' missing '') ERRS"
  define E2 where "E2 = (if (case tr_source tr of None \<Rightarrow> True | Some s \<Rightarrow> s \<notin> ids)
                then err (''Transition '' @ str_nat i @ '' unknown source: '' @ str_opt (tr_source tr)) E1
                else E1)"
  define E3 where "E3 = (if (case tr_target tr of None \<Rightarrow> True | Some t \<Rightarrow> t \<notin> ids)
                then err (''Transition '' @ str_nat i @ '' unknown target: '' @ str_opt (tr_target tr)) E2
                else E2)"
  from validate_trigger_total [OF assms] obtain E4 where
    4: "validate_trigger (case tr_trigger tr of None \<Rightarrow> [] | Some t \<Rightarrow> t)
          dev_map cd bool_ops ops E3 = Inr E4" by blast
  from validate_action_total [OF assms] obtain E5 where
    5: "validate_action (case tr_action tr of None \<Rightarrow> [] | Some a \<Rightarrow> a) dev_map cd E4 = Inr E5"
    by blast
  have "transitions_loop (tr # trs) i ids dev_map cd bool_ops ops ERRS =
          transitions_loop trs (i + 1) ids dev_map cd bool_ops ops E5"
    unfolding transitions_loop.simps Let_def E1_def [symmetric] E2_def [symmetric]
      E3_def [symmetric] 4 sum.case 5 ..
  with Cons.IH [of "i + 1" E5] show ?case by simp
qed

lemma validate_raises_iff:
  assumes "fst (validate_devices sp caps []) = (dev_map, cd)"
  shows "(\<exists>e. validate sp caps ERRS = Inl e) =
           (case sp_states sp of
              Items sts \<Rightarrow> \<not> list_all (state_invariants_known dev_map cd) sts
            | _ \<Rightarrow> False)"
proof -
  note c = validate_devices_consistent [OF assms]
  have t: "\<exists>ds. transition_diags sp caps ids = Inr ds" for ids
    unfolding transition_diags_def assms
    using transitions_loop_total [OF c]
    by (cases "sp_transitions sp") simp_all
  have s: "(\<exists>e. states_result sp caps = Inl e) =
           (case sp_states sp of
              Items sts \<Rightarrow> \<not> list_all (state_invariants_known dev_map cd) sts
            | _ \<Rightarrow> False)"
    unfolding states_result_def assms
    using states_loop_raises_iff [of _ dev_map cd "schema_ops caps" "{}" "[]"]
    by (cases "sp_states sp") simp_all
  have "(\<exists>e. validate sp caps ERRS = Inl e) = (\<exists>e. states_result sp caps = Inl e)"
  proof (cases "states_result sp caps")
    case (Inl e)
    then show ?thesis unfolding validate_groups [of sp caps ERRS] by simp
  next
    case (Inr p)
    obtain ids sd where p: "p = (ids, sd)" by (cases p)
    from t [of ids] obtain ds where "transition_diags sp caps ids = Inr ds" by blast
    with Inr p show ?thesis unfolding validate_groups [of sp caps ERRS] by simp
  qed
  with s show ?thesis by simp
qed

end
